theory Spec2Isabelle
  imports Main "HOL-Library.AList"
begin

section \<open>Python values used by the calendar core\<close>

text \<open>
  The exceptions the core can meet. \<open>NotImplementedError\<close> is Python's signal for
  an unsupported operation; \<open>NotFound\<close> is the store contract's signal for an
  identifier that the store does not hold.
\<close>

datatype py_error = TypeError | OverflowError | KeyError | NotImplementedError | NotFound

subsection \<open>datetime, time and timedelta\<close>

text \<open>
  A \<open>timedelta\<close> is its total number of microseconds. A \<open>datetime\<close> carries the
  seven calendar fields and \<open>tzinfo\<close>; a time zone is a fixed offset from UTC
  (\<open>None\<close> is a naive value). The functions below follow the pure-Python
  \<open>datetime\<close> module: proleptic Gregorian ordinals, comparison and addition.
\<close>

type_synonym timedelta = int

record datetime =
  year :: int
  month :: int
  day :: int
  hour :: int
  minute :: int
  second :: int
  microsecond :: int
  tzinfo :: "timedelta option"

record time =
  time_hour :: int
  time_minute :: int
  time_second :: int
  time_microsecond :: int

definition is_leap :: "int \<Rightarrow> bool" where
  "is_leap y = (y mod 4 = 0 \<and> (y mod 100 \<noteq> 0 \<or> y mod 400 = 0))"

definition DAYS_IN_MONTH :: "int list" where
  "DAYS_IN_MONTH = [-1, 31, 28, 31, 30, 31, 30, 31, 31, 30, 31, 30, 31]"

definition DAYS_BEFORE_MONTH :: "int list" where
  "DAYS_BEFORE_MONTH = [-1, 0, 31, 59, 90, 120, 151, 181, 212, 243, 273, 304, 334]"

definition days_before_year :: "int \<Rightarrow> int" where
  "days_before_year y =
     (let z = y - 1 in z * 365 + z div 4 - z div 100 + z div 400)"

definition days_before_month :: "int \<Rightarrow> int \<Rightarrow> int" where
  "days_before_month y m =
     DAYS_BEFORE_MONTH ! nat m + (if 2 < m \<and> is_leap y then 1 else 0)"

definition ymd2ord :: "int \<Rightarrow> int \<Rightarrow> int \<Rightarrow> int" where
  "ymd2ord y m d = days_before_year y + days_before_month y m + d"

definition ord2ymd :: "int \<Rightarrow> int \<times> int \<times> int" where
  "ord2ymd n0 =
     (let n = n0 - 1;
          n400 = n div 146097; n = n mod 146097;
          n100 = n div 36524; n = n mod 36524;
          n4 = n div 1461; n = n mod 1461;
          n1 = n div 365; n = n mod 365;
          y = n400 * 400 + 1 + n100 * 100 + n4 * 4 + n1
      in if n1 = 4 \<or> n100 = 4 then (y - 1, 12, 31)
         else
           let leapyear = (n1 = 3 \<and> (n4 \<noteq> 24 \<or> n100 = 3));
               m = (n + 50) div 32;
               preceding = DAYS_BEFORE_MONTH ! nat m + (if 2 < m \<and> leapyear then 1 else 0)
           in if n < preceding
              then (y, m - 1,
                    n - (preceding - (DAYS_IN_MONTH ! nat (m - 1)
                                      + (if m - 1 = 2 \<and> leapyear then 1 else 0))) + 1)
              else (y, m, n - preceding + 1))"

definition toordinal :: "datetime \<Rightarrow> int" where
  "toordinal d = ymd2ord (year d) (month d) (day d)"

text \<open>\<open>datetime.weekday()\<close>: Monday is 0 and Sunday is 6.\<close>

definition datetime_weekday :: "datetime \<Rightarrow> int" where
  "datetime_weekday d = (toordinal d + 6) mod 7"

definition dt_fields :: "datetime \<Rightarrow> int list" where
  "dt_fields d = [year d, month d, day d, hour d, minute d, second d, microsecond d]"

fun cmp_fields :: "int list \<Rightarrow> int list \<Rightarrow> int" where
  "cmp_fields (x # xs) (y # ys) =
     (if x < y then -1 else if y < x then 1 else cmp_fields xs ys)"
| "cmp_fields xs ys = 0"

definition local_micros :: "datetime \<Rightarrow> int" where
  "local_micros d =
     (toordinal d * 86400 + hour d * 3600 + minute d * 60 + second d) * 1000000
       + microsecond d"

text \<open>
  \<open>datetime._cmp\<close>: values with the same offset (or both naive) compare field by
  field; two aware values with different offsets compare as instants; a naive and an
  aware value raise \<open>TypeError\<close> under an ordering and are unequal (result 2) under
  \<open>==\<close>.
\<close>

definition dt_cmp :: "bool \<Rightarrow> datetime \<Rightarrow> datetime \<Rightarrow> py_error + int" where
  "dt_cmp allow_mixed a b =
     (if tzinfo a = tzinfo b then Inr (cmp_fields (dt_fields a) (dt_fields b))
      else case (tzinfo a, tzinfo b) of
             (Some myoff, Some otoff) \<Rightarrow>
               (let diff = local_micros a - local_micros b + otoff - myoff
                in Inr (if diff < 0 then -1 else if diff = 0 then 0 else 1))
           | _ \<Rightarrow> (if allow_mixed then Inr 2 else Inl TypeError))"

definition dt_le :: "datetime \<Rightarrow> datetime \<Rightarrow> py_error + bool" where
  "dt_le a b = (case dt_cmp False a b of Inl err \<Rightarrow> Inl err | Inr c \<Rightarrow> Inr (c \<le> 0))"

definition dt_eq :: "datetime \<Rightarrow> datetime \<Rightarrow> bool" where
  "dt_eq a b = (dt_cmp True a b = Inr 0)"

text \<open>
  \<open>datetime + timedelta\<close>: the sum is normalised to days, seconds and microseconds, and
  a day outside 1..3652059 (years 1 to 9999) raises \<open>OverflowError\<close>.
\<close>

definition dt_add :: "datetime \<Rightarrow> timedelta \<Rightarrow> py_error + datetime" where
  "dt_add d td =
     (let total = local_micros d + td;
          days = total div 86400000000;
          secs = (total mod 86400000000) div 1000000;
          us = total mod 1000000
      in if 0 < days \<and> days \<le> 3652059
         then (case ord2ymd days of
                 (y, m, dd) \<Rightarrow>
                   Inr \<lparr>year = y, month = m, day = dd,
                        hour = secs div 3600, minute = (secs mod 3600) div 60,
                        second = secs mod 60, microsecond = us, tzinfo = tzinfo d\<rparr>)
         else Inl OverflowError)"

text \<open>\<open>dt.replace(hour=h, minute=m)\<close>: every other field is kept.\<close>

definition replace_hour_minute :: "datetime \<Rightarrow> int \<Rightarrow> int \<Rightarrow> datetime" where
  "replace_hour_minute d h m = d\<lparr>hour := h, minute := m\<rparr>"

subsection \<open>Weekday\<close>

text \<open>
  \<open>Weekday = IntEnum('Weekdays', 'sunday monday ... saturday', start=0)\<close>.
\<close>

datatype Weekday = sunday | monday | tuesday | wednesday | thursday | friday | saturday

fun weekday_value :: "Weekday \<Rightarrow> int" where
  "weekday_value sunday = 0"
| "weekday_value monday = 1"
| "weekday_value tuesday = 2"
| "weekday_value wednesday = 3"
| "weekday_value thursday = 4"
| "weekday_value friday = 5"
| "weekday_value saturday = 6"

text \<open>
  What an attribute read can give the filter: an integer, or the bound method
  \<open>weekday\<close> of a datetime (the method object itself, not its result).
\<close>

datatype py_value = IntValue int | BoundMethod datetime

text \<open>
  \<open>IntEnum.__eq__\<close> is \<open>int.__eq__\<close>: against an integer it compares values;
  against a method object both sides answer \<open>NotImplemented\<close> and Python falls back
  to identity, which is false.
\<close>

fun weekday_eq :: "Weekday \<Rightarrow> py_value \<Rightarrow> bool" where
  "weekday_eq w (IntValue i) = (weekday_value w = i)"
| "weekday_eq w (BoundMethod d) = False"

section \<open>Event and EventFilter\<close>

text \<open>
  \<open>Event\<close>: the fields \<open>id\<close> and \<open>end\<close> are \<open>event_id\<close> and \<open>event_end\<close> here.
  \<open>metadata\<close> is the dictionary in insertion order; its values are strings or
  \<open>None\<close>.
\<close>

record Event =
  event_id :: "string option"
  title :: string
  start :: datetime
  event_end :: datetime
  all_day :: bool
  description :: string
  metadata :: "(string \<times> string option) list"

text \<open>\<open>d.get(key)\<close> and \<open>d.get(key, None)\<close> on a metadata dictionary.\<close>

definition dict_get :: "(string \<times> string option) list \<Rightarrow> string \<Rightarrow> string option" where
  "dict_get d k = (case map_of d k of None \<Rightarrow> None | Some v \<Rightarrow> v)"

definition matches :: "Event \<Rightarrow> Event \<Rightarrow> bool" where
  "matches self other =
     (title self = title other \<and> dt_eq (start self) (start other)
      \<and> dt_eq (event_end self) (event_end other))"

record EventFilter =
  filter_src_calendar :: "string option"
  filter_start :: "datetime option"
  filter_end :: "datetime option"
  weekday :: "Weekday option"

text \<open>\<open>EventFilter()\<close>: every field at its default \<open>None\<close>.\<close>

definition EventFilter_default :: EventFilter where
  "EventFilter_default =
     \<lparr>filter_src_calendar = None, filter_start = None, filter_end = None, weekday = None\<rparr>"

text \<open>
  \<open>EventFilter.__call__\<close>. The four conditions are the elements of a list, so all of
  them are evaluated, in order, before \<open>all\<close> runs: a comparison that raises does so
  whatever the other conditions are. \<open>not x\<close> holds for \<open>None\<close>, for the integer 0
  and for the empty string; a datetime is never falsy. The weekday condition reads
  the attribute \<open>event.start.weekday\<close> without calling it.
\<close>

definition EventFilter_call :: "EventFilter \<Rightarrow> Event \<Rightarrow> py_error + bool" where
  "EventFilter_call self event =
     (case (case filter_start self of None \<Rightarrow> Inr True
            | Some s \<Rightarrow> dt_le s (start event)) of
        Inl err \<Rightarrow> Inl err
      | Inr c1 \<Rightarrow>
     (case (case filter_end self of None \<Rightarrow> Inr True
            | Some t \<Rightarrow> dt_le (event_end event) t) of
        Inl err \<Rightarrow> Inl err
      | Inr c2 \<Rightarrow>
     (let c3 = (case weekday self of None \<Rightarrow> True
                | Some w \<Rightarrow> if weekday_value w = 0 then True
                            else weekday_eq w (BoundMethod (start event)));
          c4 = (case filter_src_calendar self of None \<Rightarrow> True
                | Some c \<Rightarrow> if c = [] then True
                            else dict_get (metadata event) ''src_calendar'' = Some c)
      in Inr (c1 \<and> c2 \<and> c3 \<and> c4))))"

text \<open>
  The reading of "the event satisfies every individually-specified bound" that the
  specification gives: a bound that is unset constrains nothing, a weekday bound holds
  when the start falls on that day of the week (ordinal 1, the first of January of
  year 1, is a Monday).
\<close>

definition falls_on :: "Weekday \<Rightarrow> datetime \<Rightarrow> bool" where
  "falls_on w d = (toordinal d mod 7 = weekday_value w)"

definition satisfies_bounds :: "EventFilter \<Rightarrow> Event \<Rightarrow> bool" where
  "satisfies_bounds f e =
     ((case filter_start f of None \<Rightarrow> True | Some s \<Rightarrow> dt_le s (start e) = Inr True)
      \<and> (case filter_end f of None \<Rightarrow> True | Some t \<Rightarrow> dt_le (event_end e) t = Inr True)
      \<and> (case weekday f of None \<Rightarrow> True | Some w \<Rightarrow> falls_on w (start e))
      \<and> (case filter_src_calendar f of None \<Rightarrow> True
          | Some c \<Rightarrow> dict_get (metadata e) ''src_calendar'' = Some c))"

text \<open>
  Whether a bound and a timestamp can be ordered: both naive or both aware.
\<close>

definition comparable :: "datetime option \<Rightarrow> datetime \<Rightarrow> bool" where
  "comparable b d =
     (case b of None \<Rightarrow> True | Some s \<Rightarrow> (tzinfo s = None) = (tzinfo d = None))"

text \<open>
  A datetime is aware when it carries an offset, naive otherwise. An event is of the
  same kind as a filter when its start, its end and the bounds of the filter are all
  aware or all naive: these are the events that the filter can be applied to, and that
  can be stored beside the events that the filter has been applied to.
\<close>

definition aware :: "datetime \<Rightarrow> bool" where
  "aware d = (tzinfo d \<noteq> None)"

definition same_kind :: "EventFilter \<Rightarrow> Event \<Rightarrow> bool" where
  "same_kind flt d =
     (aware (event_end d) = aware (start d)
      \<and> (case filter_start flt of None \<Rightarrow> True | Some b \<Rightarrow> aware b = aware (start d))
      \<and> (case filter_end flt of None \<Rightarrow> True | Some b \<Rightarrow> aware b = aware (start d)))"

section \<open>The Calendar contract\<close>

text \<open>
  What a store's \<open>events\<close> returns is consumed lazily: a sequence of events that ends
  normally or with an exception raised while the next element is computed.
\<close>

datatype 'a iter = Stop | Yield 'a "'a iter" | Raise py_error

text \<open>Python's \<open>filter(p, xs)\<close>, where \<open>p\<close> may raise.\<close>

fun filter_iter :: "('a \<Rightarrow> py_error + bool) \<Rightarrow> 'a list \<Rightarrow> 'a iter" where
  "filter_iter p [] = Stop"
| "filter_iter p (x # xs) =
     (case p x of
        Inl err \<Rightarrow> Raise err
      | Inr b \<Rightarrow> if b then Yield x (filter_iter p xs) else filter_iter p xs)"

text \<open>
  The abstract class \<open>Calendar\<close>: the six abstract methods, over a store state
  \<open>'s\<close>. A mutating method returns the new state or raises. Identifiers are
  \<open>string option\<close> because an event that is not persisted has \<open>id = None\<close>.
  \<open>create_event(**kwargs)\<close> receives its keyword arguments as an \<open>Event\<close>.
\<close>

record 's Calendar =
  events :: "'s \<Rightarrow> EventFilter option \<Rightarrow> Event iter"
  add_event :: "'s \<Rightarrow> Event \<Rightarrow> py_error + 's"
  get_event :: "'s \<Rightarrow> string option \<Rightarrow> py_error + Event"
  create_event :: "'s \<Rightarrow> Event \<Rightarrow> py_error + Event"
  update_event :: "'s \<Rightarrow> Event \<Rightarrow> py_error + 's"
  delete_event :: "'s \<Rightarrow> string option \<Rightarrow> py_error + 's"

subsection \<open>has\_event\<close>

fun any_matches :: "Event \<Rightarrow> Event iter \<Rightarrow> py_error + bool" where
  "any_matches search Stop = Inr False"
| "any_matches search (Raise err) = Inl err"
| "any_matches search (Yield event rest) =
     (if matches event search then Inr True else any_matches search rest)"

text \<open>
  \<open>datetime(d.year, d.month, d.day, tzinfo=d.tzinfo)\<close>: midnight of the same day.
\<close>

definition day_start :: "datetime \<Rightarrow> datetime" where
  "day_start d =
     \<lparr>year = year d, month = month d, day = day d, hour = 0, minute = 0, second = 0,
      microsecond = 0, tzinfo = tzinfo d\<rparr>"

definition day_end :: "datetime \<Rightarrow> datetime" where
  "day_end d = replace_hour_minute (day_start d) 23 59"

definition day_filter :: "Event \<Rightarrow> EventFilter" where
  "day_filter search =
     \<lparr>filter_src_calendar = None, filter_start = Some (day_start (start search)),
      filter_end = Some (day_end (start search)), weekday = None\<rparr>"

definition has_event :: "'s Calendar \<Rightarrow> 's \<Rightarrow> Event \<Rightarrow> py_error + bool" where
  "has_event cal self search =
     any_matches search (events cal self (Some (day_filter search)))"

text \<open>
  The test that the loop of \<open>has_event\<close> applies to one event of the store: the filter
  of the day accepts it and it matches \<open>search\<close>.
\<close>

definition guard_accepts :: "Event \<Rightarrow> Event \<Rightarrow> bool" where
  "guard_accepts search r =
     (EventFilter_call (day_filter search) r = Inr True \<and> matches r search)"

text \<open>
  What the specification says of \<open>has_event\<close>, written without the comparison
  functions above: two timestamps are the same moment when both are naive, or both
  carry the same offset, and all their fields agree, or when they carry different
  offsets and denote the same instant; a naive and an aware timestamp are never the
  same moment. One timestamp is not later than another when its fields come first, or
  are the same, in the order year, month, day, hour, minute, second, microsecond (the
  instants are compared when the offsets differ).
\<close>

definition same_moment :: "datetime \<Rightarrow> datetime \<Rightarrow> bool" where
  "same_moment a b =
     (case (tzinfo a, tzinfo b) of
        (None, None) \<Rightarrow>
          year a = year b \<and> month a = month b \<and> day a = day b \<and> hour a = hour b
          \<and> minute a = minute b \<and> second a = second b \<and> microsecond a = microsecond b
      | (Some oa, Some ob) \<Rightarrow>
          if oa = ob
          then year a = year b \<and> month a = month b \<and> day a = day b \<and> hour a = hour b
               \<and> minute a = minute b \<and> second a = second b \<and> microsecond a = microsecond b
          else local_micros a - oa = local_micros b - ob
      | _ \<Rightarrow> False)"

definition earlier_fields :: "datetime \<Rightarrow> datetime \<Rightarrow> bool" where
  "earlier_fields a b =
     (year a < year b \<or> year a = year b \<and>
     (month a < month b \<or> month a = month b \<and>
     (day a < day b \<or> day a = day b \<and>
     (hour a < hour b \<or> hour a = hour b \<and>
     (minute a < minute b \<or> minute a = minute b \<and>
     (second a < second b \<or> second a = second b \<and>
      microsecond a \<le> microsecond b))))))"

definition not_later :: "datetime \<Rightarrow> datetime \<Rightarrow> bool" where
  "not_later a b =
     (case (tzinfo a, tzinfo b) of
        (None, None) \<Rightarrow> earlier_fields a b
      | (Some oa, Some ob) \<Rightarrow>
          if oa = ob then earlier_fields a b
          else local_micros a - oa \<le> local_micros b - ob
      | _ \<Rightarrow> False)"

subsection \<open>StaticCalendar\<close>

record StaticCalendar =
  static_id :: string
  static_events :: "(string option \<times> Event) list"

text \<open>
  \<open>{event.id: event for event in events}\<close>: a later event with the same id replaces
  the value and keeps the place of the first.
\<close>

definition StaticCalendar_init :: "string \<Rightarrow> Event list \<Rightarrow> StaticCalendar" where
  "StaticCalendar_init i evs =
     \<lparr>static_id = i,
      static_events = fold (\<lambda>event d. AList.update (event_id event) event d) evs []\<rparr>"

definition StaticCalendar_events :: "StaticCalendar \<Rightarrow> EventFilter option \<Rightarrow> Event iter" where
  "StaticCalendar_events self event_filter =
     filter_iter
       (EventFilter_call (case event_filter of None \<Rightarrow> EventFilter_default | Some f \<Rightarrow> f))
       (map snd (static_events self))"

definition StaticCalendar_get_event :: "StaticCalendar \<Rightarrow> string option \<Rightarrow> py_error + Event" where
  "StaticCalendar_get_event self i =
     (case map_of (static_events self) i of None \<Rightarrow> Inl KeyError | Some event \<Rightarrow> Inr event)"

text \<open>
  The four mutating methods are \<open>raise NotImplemented("StaticCalendars cannot be
  modified")\<close>. \<open>NotImplemented\<close> is the constant that binary operators return, not
  the exception class \<open>NotImplementedError\<close>, and it is not callable: evaluating
  the call raises \<open>TypeError\<close> before \<open>raise\<close> receives anything.
\<close>

definition call_NotImplemented :: "string \<Rightarrow> py_error + 'a" where
  "call_NotImplemented message = Inl TypeError"

definition StaticCalendar_add_event :: "StaticCalendar \<Rightarrow> Event \<Rightarrow> py_error + StaticCalendar" where
  "StaticCalendar_add_event self event =
     call_NotImplemented ''StaticCalendars cannot be modified''"

definition StaticCalendar_create_event :: "StaticCalendar \<Rightarrow> Event \<Rightarrow> py_error + Event" where
  "StaticCalendar_create_event self kwargs =
     call_NotImplemented ''StaticCalendars cannot be modified''"

definition StaticCalendar_update_event :: "StaticCalendar \<Rightarrow> Event \<Rightarrow> py_error + StaticCalendar" where
  "StaticCalendar_update_event self event =
     call_NotImplemented ''StaticCalendars cannot be modified''"

definition StaticCalendar_delete_event ::
  "StaticCalendar \<Rightarrow> string option \<Rightarrow> py_error + StaticCalendar" where
  "StaticCalendar_delete_event self i =
     call_NotImplemented ''StaticCalendars cannot be modified''"

definition StaticCalendar_class :: "StaticCalendar Calendar" where
  "StaticCalendar_class =
     \<lparr>events = StaticCalendar_events, add_event = StaticCalendar_add_event,
      get_event = StaticCalendar_get_event, create_event = StaticCalendar_create_event,
      update_event = StaticCalendar_update_event,
      delete_event = StaticCalendar_delete_event\<rparr>"

section \<open>SyncConfig and sync\_from\<close>

text \<open>\<open>SyncConfig\<close>: the field \<open>title\<close> is \<open>config_title\<close> here.\<close>

record SyncConfig =
  src_calendar :: string
  config_title :: "string option"
  sync_start :: "datetime option"
  start_time :: "time option"
  start_offset :: "timedelta option"
  sync_end :: "datetime option"
  end_time :: "time option"
  end_offset :: "timedelta option"

text \<open>
  The filter of the first loop. \<open>now0\<close> and \<open>now1\<close> are what the two reads of
  \<open>datetime.utcnow().astimezone()\<close> return.
\<close>

definition sync_filter :: "SyncConfig \<Rightarrow> datetime \<Rightarrow> datetime \<Rightarrow> py_error + EventFilter" where
  "sync_filter config now0 now1 =
     (case (case sync_end config of
              Some e \<Rightarrow> Inr e
            | None \<Rightarrow> dt_add now1 (30 * 86400 * 1000000)) of
        Inl err \<Rightarrow> Inl err
      | Inr en \<Rightarrow>
          Inr \<lparr>filter_src_calendar = Some (src_calendar config),
               filter_start = Some (case sync_start config of Some s \<Rightarrow> s | None \<Rightarrow> now0),
               filter_end = Some en, weekday = None\<rparr>)"

text \<open>
  \<open>existing_ids\<close> is a dictionary from \<open>src_id\<close> to destination identifier, in
  insertion order; \<open>duplicates\<close> is a list of destination identifiers.
\<close>

type_synonym index = "(string option \<times> string option) list"

definition src_id_of :: "Event \<Rightarrow> string option" where
  "src_id_of event = dict_get (metadata event) ''src_id''"

fun index_existing ::
  "Event iter \<Rightarrow> index \<Rightarrow> string option list \<Rightarrow> py_error + index \<times> string option list" where
  "index_existing Stop existing_ids duplicates = Inr (existing_ids, duplicates)"
| "index_existing (Raise err) existing_ids duplicates = Inl err"
| "index_existing (Yield event rest) existing_ids duplicates =
     (if src_id_of event \<in> set (map fst existing_ids)
      then index_existing rest existing_ids (duplicates @ [event_id event])
      else index_existing rest (existing_ids @ [(src_id_of event, event_id event)]) duplicates)"

text \<open>
  The dictionary \<open>details\<close> of one source event, as an \<open>Event\<close> whose \<open>event_id\<close>
  is \<open>None\<close> (the key \<open>id\<close> is popped, and set to \<open>None\<close> again on the create
  path). A \<open>time\<close> is never falsy; a \<open>timedelta\<close> is falsy when it is zero; a title
  is falsy when it is \<open>None\<close> or empty.
\<close>

definition add_offset :: "datetime \<Rightarrow> timedelta option \<Rightarrow> py_error + datetime" where
  "add_offset d offset =
     (case offset of
        None \<Rightarrow> Inr d
      | Some td \<Rightarrow> if td = 0 then Inr d else dt_add d td)"

definition override_time :: "datetime \<Rightarrow> time option \<Rightarrow> datetime" where
  "override_time d t =
     (case t of
        None \<Rightarrow> d
      | Some v \<Rightarrow> replace_hour_minute d (time_hour v) (time_minute v))"

definition details :: "SyncConfig \<Rightarrow> Event \<Rightarrow> py_error + Event" where
  "details config event =
     (case add_offset (override_time (start event) (start_time config)) (start_offset config) of
        Inl err \<Rightarrow> Inl err
      | Inr s \<Rightarrow>
     (case add_offset (override_time (event_end event) (end_time config)) (end_offset config) of
        Inl err \<Rightarrow> Inl err
      | Inr e \<Rightarrow>
          Inr \<lparr>event_id = None,
               title = (case config_title config of
                          None \<Rightarrow> title event
                        | Some t \<Rightarrow> if t = [] then title event else t),
               start = s, event_end = e, all_day = all_day event,
               description = description event,
               metadata = [(''src_calendar'', Some (src_calendar config)),
                           (''src_id'', event_id event)]\<rparr>))"

text \<open>\<open>event.update(**details)\<close>: every field but the identifier is set.\<close>

definition Event_update :: "Event \<Rightarrow> Event \<Rightarrow> Event" where
  "Event_update self kwargs =
     self\<lparr>title := title kwargs, start := start kwargs, event_end := event_end kwargs,
          all_day := all_day kwargs, description := description kwargs,
          metadata := metadata kwargs\<rparr>"

text \<open>
  The mutating calls that returned, in order. A run that raises leaves the store as
  the calls before the failure made it. On the update path the code patches the object
  that \<open>get_event\<close> returned before it calls \<open>update_event\<close>; a store that hands out the
  stored object itself, as StaticCalendar does, therefore already shows the patch when
  \<open>update_event\<close> raises. The state of a failed run is the store as the last call that
  returned left it, without such a patch; the statements below read the state of runs
  that return, and of runs that raise before the second loop.
\<close>

datatype call = Add_event Event | Update_event Event | Delete_event "string option"

type_synonym 's failure = "py_error \<times> 's \<times> call list"

definition sync_event ::
  "'s Calendar \<Rightarrow> SyncConfig \<Rightarrow> Event \<Rightarrow> index \<times> 's \<times> call list
     \<Rightarrow> 's failure + index \<times> 's \<times> call list" where
  "sync_event cal config event st =
     (case st of (existing_ids, self, tr) \<Rightarrow>
      case details config event of
        Inl err \<Rightarrow> Inl (err, self, tr)
      | Inr d \<Rightarrow>
          (case map_of existing_ids (event_id event) of
             Some dest \<Rightarrow>
               (case get_event cal self dest of
                  Inl err \<Rightarrow> Inl (err, self, tr)
                | Inr found \<Rightarrow>
                    (case update_event cal self (Event_update found d) of
                       Inl err \<Rightarrow> Inl (err, self, tr)
                     | Inr self' \<Rightarrow>
                         Inr (AList.delete (event_id event) existing_ids, self',
                              tr @ [Update_event (Event_update found d)])))
           | None \<Rightarrow>
               (case create_event cal self d of
                  Inl err \<Rightarrow> Inl (err, self, tr)
                | Inr created \<Rightarrow>
                    (case has_event cal self created of
                       Inl err \<Rightarrow> Inl (err, self, tr)
                     | Inr present \<Rightarrow>
                         if present then Inr (existing_ids, self, tr)
                         else (case add_event cal self created of
                                 Inl err \<Rightarrow> Inl (err, self, tr)
                               | Inr self' \<Rightarrow>
                                   Inr (existing_ids, self', tr @ [Add_event created]))))))"

fun sync_events ::
  "'s Calendar \<Rightarrow> SyncConfig \<Rightarrow> Event list \<Rightarrow> index \<times> 's \<times> call list
     \<Rightarrow> 's failure + index \<times> 's \<times> call list" where
  "sync_events cal config [] st = Inr st"
| "sync_events cal config (event # rest) st =
     (case sync_event cal config event st of
        Inl failed \<Rightarrow> Inl failed
      | Inr st' \<Rightarrow> sync_events cal config rest st')"

fun delete_all ::
  "'s Calendar \<Rightarrow> string option list \<Rightarrow> 's \<times> call list \<Rightarrow> 's failure + 's \<times> call list" where
  "delete_all cal [] st = Inr st"
| "delete_all cal (i # rest) st =
     (case delete_event cal (fst st) i of
        Inl err \<Rightarrow> Inl (err, fst st, snd st)
      | Inr self' \<Rightarrow> delete_all cal rest (self', snd st @ [Delete_event i]))"

definition sync_from ::
  "'s Calendar \<Rightarrow> 's \<Rightarrow> Event list \<Rightarrow> SyncConfig \<Rightarrow> datetime \<Rightarrow> datetime
     \<Rightarrow> 's failure + 's \<times> call list" where
  "sync_from cal self src_events config now0 now1 =
     (case sync_filter config now0 now1 of
        Inl err \<Rightarrow> Inl (err, self, [])
      | Inr flt \<Rightarrow>
     (case index_existing (events cal self (Some flt)) [] [] of
        Inl err \<Rightarrow> Inl (err, self, [])
      | Inr (existing_ids, duplicates) \<Rightarrow>
     (case sync_events cal config src_events (existing_ids, self, []) of
        Inl failed \<Rightarrow> Inl failed
      | Inr (remaining, self', tr) \<Rightarrow>
     (case delete_all cal (map snd remaining) (self', tr) of
        Inl failed \<Rightarrow> Inl failed
      | Inr st \<Rightarrow> delete_all cal duplicates st))))"

text \<open>
  The events that an iteration produces before it stops or raises, and the two kinds
  of position in that sequence: the first position at which a \<open>src_id\<close> occurs, and a
  position whose \<open>src_id\<close> occurred at an earlier one.
\<close>

fun yielded :: "'a iter \<Rightarrow> 'a list" where
  "yielded Stop = []"
| "yielded (Raise err) = []"
| "yielded (Yield x rest) = x # yielded rest"

definition first_seen_at :: "Event list \<Rightarrow> nat \<Rightarrow> bool" where
  "first_seen_at ys j =
     (j < length ys \<and> (\<forall>j'<j. src_id_of (ys ! j') \<noteq> src_id_of (ys ! j)))"

definition seen_before :: "Event list \<Rightarrow> nat \<Rightarrow> bool" where
  "seen_before ys j =
     (j < length ys \<and> (\<exists>j'<j. src_id_of (ys ! j') = src_id_of (ys ! j)))"

section \<open>A writable in-memory store\<close>

text \<open>
  Modelled from the spec: the only writable store of the repository forwards every
  call to a remote service, so the store that the reconciliation claims are checked
  against is the in-memory map of section 4.2 of the specification. \<open>events\<close> applies
  the filter in memory to the stored events in insertion order; \<open>get_event\<close>,
  \<open>update_event\<close> and \<open>delete_event\<close> fail with a not-found error on an identifier
  the store does not hold; \<open>create_event\<close> builds the event and changes nothing;
  \<open>add_event\<close> persists the event under an identifier that the store assigns and that
  no stored event has (here: one character longer than every identifier in use).
\<close>

type_synonym memory = "(string option \<times> Event) list"

definition fresh_id :: "memory \<Rightarrow> string" where
  "fresh_id s =
     replicate
       (Suc (foldr max (map (\<lambda>kv. case fst kv of None \<Rightarrow> 0 | Some i \<Rightarrow> length i) s) 0))
       (CHR ''n'')"

definition memory_events :: "memory \<Rightarrow> EventFilter option \<Rightarrow> Event iter" where
  "memory_events s event_filter =
     filter_iter
       (EventFilter_call (case event_filter of None \<Rightarrow> EventFilter_default | Some f \<Rightarrow> f))
       (map snd s)"

definition memory_get_event :: "memory \<Rightarrow> string option \<Rightarrow> py_error + Event" where
  "memory_get_event s i = (case map_of s i of None \<Rightarrow> Inl NotFound | Some event \<Rightarrow> Inr event)"

definition memory_create_event :: "memory \<Rightarrow> Event \<Rightarrow> py_error + Event" where
  "memory_create_event s kwargs = Inr kwargs"

definition memory_add_event :: "memory \<Rightarrow> Event \<Rightarrow> py_error + memory" where
  "memory_add_event s event =
     Inr (s @ [(Some (fresh_id s), event\<lparr>event_id := Some (fresh_id s)\<rparr>)])"

definition memory_update_event :: "memory \<Rightarrow> Event \<Rightarrow> py_error + memory" where
  "memory_update_event s event =
     (if event_id event \<in> set (map fst s)
      then Inr (AList.update (event_id event) event s)
      else Inl NotFound)"

definition memory_delete_event :: "memory \<Rightarrow> string option \<Rightarrow> py_error + memory" where
  "memory_delete_event s i =
     (if i \<in> set (map fst s) then Inr (AList.delete i s) else Inl NotFound)"

definition MemoryCalendar :: "memory Calendar" where
  "MemoryCalendar =
     \<lparr>events = memory_events, add_event = memory_add_event, get_event = memory_get_event,
      create_event = memory_create_event, update_event = memory_update_event,
      delete_event = memory_delete_event\<rparr>"

text \<open>
  A store is well formed when no identifier occurs twice and every stored event
  carries the identifier it is stored under. \<open>patched config f k r\<close>: the record
  \<open>r\<close> is the patch of the source event \<open>f\<close> with identifier \<open>k\<close>.
\<close>

definition wf_store :: "memory \<Rightarrow> bool" where
  "wf_store s = (distinct (map fst s) \<and> (\<forall>kv\<in>set s. event_id (snd kv) = fst kv))"

definition patched :: "SyncConfig \<Rightarrow> Event \<Rightarrow> string option \<Rightarrow> Event \<Rightarrow> bool" where
  "patched config f k r =
     (case details config f of Inl err \<Rightarrow> False | Inr d \<Rightarrow> r = d\<lparr>event_id := k\<rparr>)"

text \<open>
  The predicates of the idempotence argument. A destination identifier is pending
  while it is a value of the index or a recorded duplicate: its record is still to be
  updated or deleted. A record is visible when the filter of the first loop accepts
  it. A source event that the second loop has handled is kept when a record that is
  not pending is its patch; it has passed when the guard skipped it and will skip it
  again: no visible record that is not pending carries its identifier, and either the
  store holds a record that is not pending and that the guard accepts for its patch,
  or a source event still to come is in the index and the guard accepts its patch.
  \<open>reconciling\<close> is what holds between two iterations of the second loop, after the
  source events \<open>handled\<close> and before the source events \<open>todo\<close>; \<open>settled\<close> is what
  holds of the store when a run has completed: the visible records are exactly the
  patches of source events, one each, and every source event without one is accepted
  by the guard.
\<close>

definition pending :: "index \<Rightarrow> string option list \<Rightarrow> string option set" where
  "pending ids dups = snd ` set ids \<union> set dups"

definition visible :: "EventFilter \<Rightarrow> Event \<Rightarrow> bool" where
  "visible flt r = (EventFilter_call flt r = Inr True)"

definition kept :: "SyncConfig \<Rightarrow> string option set \<Rightarrow> memory \<Rightarrow> Event \<Rightarrow> bool" where
  "kept config P s f = (\<exists>kv\<in>set s. fst kv \<notin> P \<and> patched config f (fst kv) (snd kv))"

definition passed ::
  "SyncConfig \<Rightarrow> EventFilter \<Rightarrow> string option set \<Rightarrow> index \<Rightarrow> Event list \<Rightarrow> memory \<Rightarrow> Event
     \<Rightarrow> bool" where
  "passed config flt P ids todo s f =
     ((\<forall>kv\<in>set s. fst kv \<notin> P \<and> visible flt (snd kv) \<longrightarrow> src_id_of (snd kv) \<noteq> event_id f)
      \<and> (\<exists>d. details config f = Inr d
            \<and> ((\<exists>kv\<in>set s. fst kv \<notin> P \<and> guard_accepts d (snd kv))
               \<or> (\<exists>g\<in>set todo. \<exists>dg. map_of ids (event_id g) \<noteq> None
                     \<and> details config g = Inr dg \<and> guard_accepts d dg))))"

definition reconciling ::
  "SyncConfig \<Rightarrow> EventFilter \<Rightarrow> string option list \<Rightarrow> Event list \<Rightarrow> Event list
     \<Rightarrow> index \<Rightarrow> memory \<Rightarrow> bool" where
  "reconciling config flt dups handled todo ids s =
     (wf_store s
      \<and> pending ids dups \<subseteq> fst ` set s
      \<and> distinct (map snd ids @ dups)
      \<and> (\<forall>kv\<in>set s. \<exists>b. EventFilter_call flt (snd kv) = Inr b)
      \<and> (\<forall>kv\<in>set s. fst kv \<notin> pending ids dups \<and> visible flt (snd kv)
            \<longrightarrow> (\<exists>f\<in>set handled. patched config f (fst kv) (snd kv)))
      \<and> (\<forall>f\<in>set handled. kept config (pending ids dups) s f
            \<or> passed config flt (pending ids dups) ids todo s f)
      \<and> (\<forall>kv\<in>set s. \<forall>kv'\<in>set s.
            fst kv \<notin> pending ids dups \<and> fst kv' \<notin> pending ids dups
            \<and> visible flt (snd kv) \<and> visible flt (snd kv')
            \<and> src_id_of (snd kv) = src_id_of (snd kv') \<longrightarrow> kv = kv')
      \<and> distinct (map fst ids))"

definition settled :: "SyncConfig \<Rightarrow> EventFilter \<Rightarrow> Event list \<Rightarrow> memory \<Rightarrow> bool" where
  "settled config flt src s =
     (wf_store s
      \<and> (\<forall>kv\<in>set s. \<exists>b. EventFilter_call flt (snd kv) = Inr b)
      \<and> (\<forall>kv\<in>set s. visible flt (snd kv)
            \<longrightarrow> (\<exists>f\<in>set src. patched config f (fst kv) (snd kv)))
      \<and> (\<forall>f\<in>set src.
            (\<exists>kv\<in>set s. visible flt (snd kv) \<and> patched config f (fst kv) (snd kv))
            \<or> ((\<forall>kv\<in>set s. visible flt (snd kv) \<longrightarrow> src_id_of (snd kv) \<noteq> event_id f)
                \<and> (\<exists>d. details config f = Inr d
                      \<and> (\<exists>kv\<in>set s. guard_accepts d (snd kv)))))
      \<and> (\<forall>kv\<in>set s. \<forall>kv'\<in>set s.
            visible flt (snd kv) \<and> visible flt (snd kv')
            \<and> src_id_of (snd kv) = src_id_of (snd kv') \<longrightarrow> kv = kv'))"

section \<open>Concrete inputs\<close>

definition utc :: "int \<Rightarrow> int \<Rightarrow> int \<Rightarrow> int \<Rightarrow> int \<Rightarrow> datetime" where
  "utc y m d h mi =
     \<lparr>year = y, month = m, day = d, hour = h, minute = mi, second = 0, microsecond = 0,
      tzinfo = Some 0\<rparr>"

text \<open>The first of January 2024 is a Monday.\<close>

definition monday_event :: Event where
  "monday_event =
     \<lparr>event_id = Some ''m1'', title = ''Planning'', start = utc 2024 1 1 9 0,
      event_end = utc 2024 1 1 10 0, all_day = False, description = [], metadata = []\<rparr>"

definition monday_filter :: EventFilter where
  "monday_filter = EventFilter_default\<lparr>weekday := Some monday\<rparr>"

text \<open>
  The reading of "the time-of-day component replaced by \<open>config.start_time\<close>" that
  the specification gives: hour, minute, second and microsecond all come from the
  \<open>time\<close>; date and time zone stay.
\<close>

definition with_time_of_day :: "datetime \<Rightarrow> time \<Rightarrow> datetime" where
  "with_time_of_day d t =
     d\<lparr>hour := time_hour t, minute := time_minute t, second := time_second t,
       microsecond := time_microsecond t\<rparr>"

definition ten_oclock :: time where
  "ten_oclock = \<lparr>time_hour = 10, time_minute = 0, time_second = 0, time_microsecond = 0\<rparr>"

definition work_config :: SyncConfig where
  "work_config =
     \<lparr>src_calendar = ''work'', config_title = None, sync_start = Some (utc 2024 1 1 0 0),
      start_time = None, start_offset = None, sync_end = Some (utc 2024 12 31 0 0),
      end_time = None, end_offset = None\<rparr>"

definition review :: Event where
  "review =
     \<lparr>event_id = Some ''r1'', title = ''Review'', start = utc 2024 3 1 8 0,
      event_end = utc 2024 3 1 9 0, all_day = False, description = [], metadata = []\<rparr>"

definition review_with_seconds :: Event where
  "review_with_seconds = review\<lparr>start := (utc 2024 3 1 8 0)\<lparr>second := 45\<rparr>\<rparr>"

definition monday_search :: Event where
  "monday_search =
     monday_event\<lparr>event_id := None, all_day := True, description := ''other text'',
                  metadata := [(''k'', Some ''v'')]\<rparr>"

text \<open>
  One day of a team calendar, the first of January 2024: an event in the morning, one
  from 00:00 to 23:59, one kept in the zone one hour east of UTC, one in the evening,
  and one that ends thirty seconds after 23:59.
\<close>

definition plus_one_hour :: "int \<Rightarrow> int \<Rightarrow> int \<Rightarrow> int \<Rightarrow> int \<Rightarrow> datetime" where
  "plus_one_hour y m d h mi = (utc y m d h mi)\<lparr>tzinfo := Some 3600000000\<rparr>"

definition late_event :: Event where
  "late_event =
     \<lparr>event_id = Some ''l1'', title = ''Late shift'',
      start = (utc 2024 1 1 23 0)\<lparr>second := 45\<rparr>,
      event_end = (utc 2024 1 1 23 59)\<lparr>second := 30\<rparr>,
      all_day = False, description = [], metadata = []\<rparr>"

definition on_call :: Event where
  "on_call =
     \<lparr>event_id = Some ''w1'', title = ''On call'', start = utc 2024 1 1 0 0,
      event_end = utc 2024 1 1 23 59, all_day = False, description = [], metadata = []\<rparr>"

definition zoned_call :: Event where
  "zoned_call =
     \<lparr>event_id = Some ''z1'', title = ''Call'', start = plus_one_hour 2024 1 1 15 0,
      event_end = plus_one_hour 2024 1 1 16 0, all_day = False, description = [],
      metadata = []\<rparr>"

definition dinner :: Event where
  "dinner =
     \<lparr>event_id = Some ''e1'', title = ''Dinner'', start = utc 2024 1 1 22 0,
      event_end = utc 2024 1 1 23 30, all_day = False, description = [], metadata = []\<rparr>"

definition day_contents :: "Event list" where
  "day_contents = [monday_event, on_call, zoned_call, dinner, late_event]"

definition day_calendar :: StaticCalendar where
  "day_calendar = StaticCalendar_init ''day'' day_contents"

definition late_calendar :: StaticCalendar where
  "late_calendar = StaticCalendar_init ''late'' [late_event]"

definition standup :: Event where
  "standup =
     \<lparr>event_id = Some ''abc'', title = ''Standup'', start = utc 2024 1 2 9 0,
      event_end = utc 2024 1 2 9 15, all_day = False, description = [], metadata = []\<rparr>"

text \<open>
  The destination record with identifier \<open>dest\<close> that a run tagged \<open>work\<close> keeps for
  the source event \<open>src_id\<close>.
\<close>

definition synced :: "string \<Rightarrow> string \<Rightarrow> Event \<Rightarrow> Event" where
  "synced dest src_id event =
     event\<lparr>event_id := Some dest,
           metadata := [(''src_calendar'', Some ''work''), (''src_id'', Some src_id)]\<rparr>"

definition store_with_orphan :: memory where
  "store_with_orphan =
     [(Some ''d1'', synced ''d1'' ''gone'' review), (Some ''d2'', synced ''d2'' ''abc'' standup)]"

definition store_with_duplicate :: memory where
  "store_with_duplicate =
     [(Some ''d1'', synced ''d1'' ''abc'' standup), (Some ''d2'', synced ''d2'' ''abc'' standup)]"

definition new_year :: datetime where
  "new_year = utc 2024 1 1 0 0"

definition work_filter :: EventFilter where
  "work_filter =
     \<lparr>filter_src_calendar = Some ''work'', filter_start = Some (utc 2024 1 1 0 0),
      filter_end = Some (utc 2024 12 31 0 0), weekday = None\<rparr>"

definition store_with_copy :: memory where
  "store_with_copy = [(Some ''d1'', standup\<lparr>event_id := Some ''d1''\<rparr>)]"

definition store_with_review :: memory where
  "store_with_review = [(Some ''d1'', synced ''d1'' ''r1'' review)]"

definition standup_patch :: Event where
  "standup_patch =
     standup\<lparr>event_id := None,
             metadata := [(''src_calendar'', Some ''work''), (''src_id'', Some ''abc'')]\<rparr>"

definition store_with_matching_orphan :: memory where
  "store_with_matching_orphan = [(Some ''d1'', synced ''d1'' ''gone'' standup)]"

text \<open>
  Inputs of the idempotence claim: an event after the sync window of \<open>work_config\<close>, one
  after the window that ends on the next day, a naive copy of \<open>standup\<close>, a record kept
  for \<open>r1\<close> that still has the title and times of \<open>standup\<close>, and a store with an
  untagged copy of \<open>standup\<close> beside the record of \<open>review\<close>, before and after a run.
\<close>

definition kickoff :: Event where
  "kickoff =
     \<lparr>event_id = Some ''y1'', title = ''Kickoff'', start = utc 2025 1 6 9 0,
      event_end = utc 2025 1 6 9 30, all_day = False, description = [], metadata = []\<rparr>"

definition overnight :: Event where
  "overnight =
     \<lparr>event_id = Some ''o1'', title = ''Deploy'', start = utc 2025 3 1 22 0,
      event_end = utc 2025 3 2 2 0, all_day = False, description = [], metadata = []\<rparr>"

definition naive_standup :: Event where
  "naive_standup =
     standup\<lparr>start := (start standup)\<lparr>tzinfo := None\<rparr>,
             event_end := (event_end standup)\<lparr>tzinfo := None\<rparr>\<rparr>"

definition store_with_stale_record :: memory where
  "store_with_stale_record = [(Some ''d1'', synced ''d1'' ''r1'' standup)]"

definition store_with_copy_and_review :: memory where
  "store_with_copy_and_review =
     [(Some ''d0'', standup\<lparr>event_id := Some ''d0''\<rparr>),
      (Some ''d1'', synced ''d1'' ''r1'' review)]"

definition store_after_first_run :: memory where
  "store_after_first_run =
     [(Some ''d0'', standup\<lparr>event_id := Some ''d0''\<rparr>),
      (Some ''d1'', synced ''d1'' ''r1'' review),
      (Some ''nnn'', synced ''nnn'' ''y1'' kickoff)]"

section \<open>EventFilter\<close>

lemma dt_le_comparable:
  "(tzinfo a = None) = (tzinfo b = None) \<Longrightarrow> \<exists>c. dt_le a b = Inr c"
  by (cases "tzinfo a"; cases "tzinfo b") (auto simp: dt_le_def dt_cmp_def Let_def)

lemma dt_le_mixed:
  "(tzinfo a = None) \<noteq> (tzinfo b = None) \<Longrightarrow> dt_le a b = Inl TypeError"
  by (cases "tzinfo a"; cases "tzinfo b") (auto simp: dt_le_def dt_cmp_def Let_def)

lemma weekday_value_zero: "weekday_value w = 0 \<longleftrightarrow> w = sunday"
  by (cases w) auto

lemmas date_simps =
  toordinal_def ymd2ord_def days_before_year_def days_before_month_def
  DAYS_BEFORE_MONTH_def DAYS_IN_MONTH_def is_leap_def utc_def

text \<open>
  Where the weekday is unset, the provenance tag is not the empty string and the
  bounds can be ordered against the event, the filter returns exactly whether the
  event satisfies every bound that is set; with no bound set it passes every event.
\<close>

lemma EventFilter_default_passes: "EventFilter_call EventFilter_default e = Inr True"
  by (simp add: EventFilter_call_def EventFilter_default_def)

lemma EventFilter_call_without_weekday:
  assumes "weekday f = None" and "filter_src_calendar f \<noteq> Some []"
      and "comparable (filter_start f) (start e)" and "comparable (filter_end f) (event_end e)"
  shows "EventFilter_call f e = Inr (satisfies_bounds f e)"
proof -
  obtain b1 where b1:
    "(case filter_start f of None \<Rightarrow> Inr True | Some s \<Rightarrow> dt_le s (start e)) = Inr b1"
    using assms(3) dt_le_comparable by (fastforce simp: comparable_def split: option.splits)
  obtain b2 where b2:
    "(case filter_end f of None \<Rightarrow> Inr True | Some t \<Rightarrow> dt_le (event_end e) t) = Inr b2"
    using assms(4) dt_le_comparable[of "event_end e"]
    by (fastforce simp: comparable_def split: option.splits)
  have s1: "(case filter_start f of None \<Rightarrow> True | Some s \<Rightarrow> dt_le s (start e) = Inr True) = b1"
    using b1 by (auto split: option.splits)
  have s2: "(case filter_end f of None \<Rightarrow> True | Some t \<Rightarrow> dt_le (event_end e) t = Inr True) = b2"
    using b2 by (auto split: option.splits)
  show ?thesis
    using assms(1,2) b1 b2 s1 s2
    by (auto simp: EventFilter_call_def satisfies_bounds_def split: option.splits)
qed

text \<open>
  C2 (filter composition), at the input where the code departs from it: a filter whose
  only bound is \<open>weekday = monday\<close> and an event that starts on a Monday. The event
  satisfies every bound that is set, and the filter returns \<open>False\<close>.
\<close>

theorem monday_filter_rejects_monday_event:
  "satisfies_bounds monday_filter monday_event
   \<and> EventFilter_call monday_filter monday_event = Inr False"
  by (simp add: monday_filter_def monday_event_def EventFilter_default_def
      satisfies_bounds_def falls_on_def date_simps EventFilter_call_def)

text \<open>
  C8 (weekday first-ordinal defect): on every event, a filter whose weekday is
  \<open>sunday\<close> (value 0) returns exactly what the same filter with the weekday unset
  returns, an exception included.
\<close>

theorem sunday_filter_is_unset:
  "EventFilter_call (f\<lparr>weekday := Some sunday\<rparr>) e
     = EventFilter_call (f\<lparr>weekday := None\<rparr>) e"
  by (simp add: EventFilter_call_def Let_def split: sum.split option.split)

text \<open>
  C10 (a weekday from Monday to Saturday rejects everything): when the weekday of the
  filter is set to a value other than \<open>sunday\<close>, the filter returns \<open>False\<close> on
  every event, whatever day its start falls on; the only other outcome is the
  \<open>TypeError\<close> of ordering a naive against an aware timestamp. It never returns
  \<open>True\<close>.
\<close>

theorem nonzero_weekday_rejects:
  assumes "weekday f = Some w" and "w \<noteq> sunday"
  shows "EventFilter_call f e =
           (if comparable (filter_start f) (start e) \<and> comparable (filter_end f) (event_end e)
            then Inr False else Inl TypeError)"
proof (cases "comparable (filter_start f) (start e)")
  case False
  then obtain s where s: "filter_start f = Some s"
      "(tzinfo s = None) \<noteq> (tzinfo (start e) = None)"
    by (auto simp: comparable_def split: option.splits)
  then show ?thesis using False
    by (simp add: EventFilter_call_def dt_le_mixed)
next
  case c1: True
  then obtain b1 where b1:
    "(case filter_start f of None \<Rightarrow> Inr True | Some s \<Rightarrow> dt_le s (start e)) = Inr b1"
    using dt_le_comparable by (fastforce simp: comparable_def split: option.splits)
  show ?thesis
  proof (cases "comparable (filter_end f) (event_end e)")
    case False
    then obtain t where t: "filter_end f = Some t"
        "(tzinfo t = None) \<noteq> (tzinfo (event_end e) = None)"
      by (auto simp: comparable_def split: option.splits)
    then have "dt_le (event_end e) t = Inl TypeError"
      by (intro dt_le_mixed) auto
    then show ?thesis using False b1 t
      by (simp add: EventFilter_call_def)
  next
    case True
    then obtain b2 where b2:
      "(case filter_end f of None \<Rightarrow> Inr True | Some t \<Rightarrow> dt_le (event_end e) t) = Inr b2"
      using dt_le_comparable[of "event_end e"]
      by (fastforce simp: comparable_def split: option.splits)
    show ?thesis using assms c1 True b1 b2
      by (simp add: EventFilter_call_def weekday_value_zero)
  qed
qed

theorem nonzero_weekday_rejects_witness:
  "weekday monday_filter = Some monday \<and> monday \<noteq> sunday
   \<and> falls_on monday (start monday_event)
   \<and> EventFilter_call monday_filter monday_event = Inr False"
  using nonzero_weekday_rejects [of monday_filter monday monday_event]
  by (simp add: monday_filter_def monday_event_def EventFilter_default_def comparable_def
      falls_on_def date_simps)

section \<open>StaticCalendar\<close>

text \<open>
  C9 (read-only store rejection), as the code has it: each of the four mutating
  methods of a StaticCalendar fails on every argument, and the failure is the
  \<open>TypeError\<close> of calling \<open>NotImplemented\<close>, not \<open>NotImplementedError\<close>. No new
  store state is produced.
\<close>

theorem StaticCalendar_mutators_raise_TypeError:
  "add_event StaticCalendar_class self event = Inl TypeError
   \<and> create_event StaticCalendar_class self kwargs = Inl TypeError
   \<and> update_event StaticCalendar_class self event = Inl TypeError
   \<and> delete_event StaticCalendar_class self i = Inl TypeError"
  by (simp add: StaticCalendar_class_def StaticCalendar_add_event_def
      StaticCalendar_create_event_def StaticCalendar_update_event_def
      StaticCalendar_delete_event_def call_NotImplemented_def)

section \<open>has\_event\<close>

lemma any_matches_filter_iter:
  assumes "\<forall>x\<in>set xs. \<exists>b. p x = Inr b"
  shows "any_matches search (filter_iter p xs)
           = Inr (\<exists>x\<in>set xs. p x = Inr True \<and> matches x search)"
  using assms by (induction xs) auto

lemma day_filter_call:
  assumes "(tzinfo (start ev) = None) = (tzinfo (start search) = None)"
      and "(tzinfo (event_end ev) = None) = (tzinfo (start search) = None)"
  shows "\<exists>b. EventFilter_call (day_filter search) ev = Inr b"
    and "EventFilter_call (day_filter search) ev = Inr True \<longleftrightarrow>
           dt_le (day_start (start search)) (start ev) = Inr True
           \<and> dt_le (event_end ev) (day_end (start search)) = Inr True"
proof -
  obtain b1 where b1: "dt_le (day_start (start search)) (start ev) = Inr b1"
    using dt_le_comparable[of "day_start (start search)" "start ev"] assms
    by (auto simp: day_start_def)
  obtain b2 where b2: "dt_le (event_end ev) (day_end (start search)) = Inr b2"
    using dt_le_comparable[of "event_end ev" "day_end (start search)"] assms
    by (auto simp: day_start_def day_end_def replace_hour_minute_def)
  show "\<exists>b. EventFilter_call (day_filter search) ev = Inr b"
    using b1 b2 by (simp add: EventFilter_call_def day_filter_def)
  show "EventFilter_call (day_filter search) ev = Inr True \<longleftrightarrow>
           dt_le (day_start (start search)) (start ev) = Inr True
           \<and> dt_le (event_end ev) (day_end (start search)) = Inr True"
    using b1 b2 by (simp add: EventFilter_call_def day_filter_def)
qed

lemma dt_eq_same_moment: "dt_eq a b = same_moment a b"
  by (cases "tzinfo a"; cases "tzinfo b")
     (auto simp: dt_eq_def dt_cmp_def same_moment_def dt_fields_def Let_def)

lemma dt_le_not_later:
  assumes "(tzinfo a = None) = (tzinfo b = None)"
  shows "dt_le a b = Inr (not_later a b)"
  using assms
  by (cases "tzinfo a"; cases "tzinfo b")
     (auto simp: dt_le_def dt_cmp_def not_later_def earlier_fields_def dt_fields_def Let_def)

lemma day_start_update:
  "day_start d = d\<lparr>hour := 0, minute := 0, second := 0, microsecond := 0\<rparr>"
  by (simp add: day_start_def)

lemma day_end_update:
  "day_end d = d\<lparr>hour := 23, minute := 59, second := 0, microsecond := 0\<rparr>"
  by (simp add: day_end_def day_start_def replace_hour_minute_def)

text \<open>
  C7 as stated fails: \<open>late_event\<close> starts at 23:00:45 and ends at 23:59:30 of the first
  of January 2024, so it lies within that calendar day, and it is the only event of the
  store; searching for it (title, start and end are its own) returns \<open>False\<close>. The upper
  bound of the filter is \<open>start.replace(hour=23, minute=59)\<close>, that is 23:59:00.000000, and
  the filter asks \<open>event.end <= end\<close>.
\<close>

theorem same_day_match_not_found:
  "has_event StaticCalendar_class late_calendar late_event = Inr False
   \<and> map snd (static_events late_calendar) = [late_event]
   \<and> title late_event = title late_event
   \<and> same_moment (start late_event) (start late_event)
   \<and> same_moment (event_end late_event) (event_end late_event)
   \<and> (year (start late_event), month (start late_event), day (start late_event)) = (2024, 1, 1)
   \<and> (year (event_end late_event), month (event_end late_event), day (event_end late_event))
         = (2024, 1, 1)
   \<and> (hour (event_end late_event), minute (event_end late_event)) = (23, 59)"
  by code_simp

text \<open>
  C7, amended: for a store whose \<open>events\<close> applies the filter in memory to its contents
  \<open>xs\<close> (as StaticCalendar does), and whose timestamps can be ordered against
  \<open>search.start\<close>, \<open>has_event(search)\<close> returns \<open>True\<close> exactly when some stored event
  starts at or after 00:00:00.000000 and ends at or before 23:59:00.000000 of the date of
  \<open>search.start\<close>, in the time zone of \<open>search.start\<close>, and has the title of \<open>search\<close>,
  a start that is the same moment as \<open>search.start\<close> and an end that is the same moment
  as \<open>search.end\<close>. Nothing else of either event is read; an event that ends after
  23:59:00 is never found.
\<close>

theorem has_event_day_match:
  assumes "events cal self (Some (day_filter search))
             = filter_iter (EventFilter_call (day_filter search)) xs"
      and "\<forall>ev\<in>set xs. (tzinfo (start ev) = None) = (tzinfo (start search) = None)
                        \<and> (tzinfo (event_end ev) = None) = (tzinfo (start search) = None)"
  shows "has_event cal self search
           = Inr (\<exists>ev\<in>set xs.
                    not_later
                      ((start search)\<lparr>hour := 0, minute := 0, second := 0, microsecond := 0\<rparr>)
                      (start ev)
                    \<and> not_later (event_end ev)
                      ((start search)\<lparr>hour := 23, minute := 59, second := 0,
                                       microsecond := 0\<rparr>)
                    \<and> title ev = title search
                    \<and> same_moment (start ev) (start search)
                    \<and> same_moment (event_end ev) (event_end search))"
proof -
  have "\<forall>ev\<in>set xs. \<exists>b. EventFilter_call (day_filter search) ev = Inr b"
    using assms(2) day_filter_call(1) by blast
  then have "has_event cal self search
      = Inr (\<exists>ev\<in>set xs. EventFilter_call (day_filter search) ev = Inr True
                          \<and> matches ev search)"
    by (simp add: has_event_def assms(1) any_matches_filter_iter)
  moreover have "EventFilter_call (day_filter search) ev = Inr True \<and> matches ev search
      \<longleftrightarrow> not_later
            ((start search)\<lparr>hour := 0, minute := 0, second := 0, microsecond := 0\<rparr>)
            (start ev)
          \<and> not_later (event_end ev)
            ((start search)\<lparr>hour := 23, minute := 59, second := 0, microsecond := 0\<rparr>)
          \<and> title ev = title search
          \<and> same_moment (start ev) (start search)
          \<and> same_moment (event_end ev) (event_end search)"
    if "ev \<in> set xs" for ev
  proof -
    have tz: "(tzinfo (start ev) = None) = (tzinfo (start search) = None)"
      "(tzinfo (event_end ev) = None) = (tzinfo (start search) = None)"
      using assms(2) that by auto
    have lo: "dt_le (day_start (start search)) (start ev)
        = Inr (not_later
            ((start search)\<lparr>hour := 0, minute := 0, second := 0, microsecond := 0\<rparr>)
            (start ev))"
      using tz(1) by (simp add: day_start_update dt_le_not_later)
    have hi: "dt_le (event_end ev) (day_end (start search))
        = Inr (not_later (event_end ev)
            ((start search)\<lparr>hour := 23, minute := 59, second := 0, microsecond := 0\<rparr>))"
      using tz(2) by (simp add: day_end_update dt_le_not_later)
    show ?thesis
      using day_filter_call(2)[OF tz] lo hi
      by (simp add: matches_def dt_eq_same_moment)
  qed
  ultimately show ?thesis by simp
qed

theorem has_event_day_match_witness:
  "has_event StaticCalendar_class day_calendar monday_search = Inr True
   \<and> has_event StaticCalendar_class day_calendar (monday_search\<lparr>title := ''Other''\<rparr>)
       = Inr False
   \<and> has_event StaticCalendar_class day_calendar
         (monday_search\<lparr>start := utc 2024 1 1 9 1\<rparr>) = Inr False
   \<and> has_event StaticCalendar_class day_calendar
         (monday_search\<lparr>event_end := utc 2024 1 1 10 1\<rparr>) = Inr False
   \<and> has_event StaticCalendar_class day_calendar (on_call\<lparr>event_id := None\<rparr>) = Inr True
   \<and> has_event StaticCalendar_class day_calendar
         (zoned_call\<lparr>start := utc 2024 1 1 14 0, event_end := utc 2024 1 1 15 0\<rparr>) = Inr True
   \<and> has_event StaticCalendar_class day_calendar dinner = Inr True
   \<and> has_event StaticCalendar_class day_calendar
         (dinner\<lparr>start := plus_one_hour 2024 1 1 23 0,
                 event_end := plus_one_hour 2024 1 2 0 30\<rparr>) = Inr False
   \<and> has_event StaticCalendar_class day_calendar late_event = Inr False"
proof -
  have contents: "map snd (static_events day_calendar) = day_contents"
    by code_simp
  have ev: "events StaticCalendar_class day_calendar (Some (day_filter s))
          = filter_iter (EventFilter_call (day_filter s)) day_contents" for s
    by (simp add: StaticCalendar_class_def StaticCalendar_events_def contents)
  have tz: "\<forall>ev\<in>set day_contents.
              (tzinfo (start ev) = None) = (tzinfo (start s) = None)
              \<and> (tzinfo (event_end ev) = None) = (tzinfo (start s) = None)"
    if "tzinfo (start s) \<noteq> None" for s
    using that
    by (simp add: day_contents_def monday_event_def on_call_def zoned_call_def dinner_def
        late_event_def utc_def plus_one_hour_def)
  have 1: "tzinfo (start monday_search) \<noteq> None" "tzinfo (start late_event) \<noteq> None"
    "tzinfo (start (dinner\<lparr>start := plus_one_hour 2024 1 1 23 0,
                 event_end := plus_one_hour 2024 1 2 0 30\<rparr>)) \<noteq> None"
    by (simp_all add: monday_search_def monday_event_def late_event_def utc_def
        plus_one_hour_def)
  have a: "has_event StaticCalendar_class day_calendar monday_search = Inr True"
    using has_event_day_match[OF ev tz[OF 1(1)]]
    by (simp add: day_contents_def monday_search_def monday_event_def utc_def not_later_def
        earlier_fields_def same_moment_def)
  have b: "has_event StaticCalendar_class day_calendar late_event = Inr False"
    using has_event_day_match[OF ev tz[OF 1(2)]]
    by (simp add: day_contents_def monday_event_def on_call_def zoned_call_def dinner_def
        late_event_def utc_def plus_one_hour_def not_later_def earlier_fields_def
        same_moment_def local_micros_def)
  have c: "has_event StaticCalendar_class day_calendar
         (dinner\<lparr>start := plus_one_hour 2024 1 1 23 0,
                 event_end := plus_one_hour 2024 1 2 0 30\<rparr>) = Inr False"
    using has_event_day_match[OF ev tz[OF 1(3)]]
    by (simp add: day_contents_def monday_event_def on_call_def zoned_call_def dinner_def
        late_event_def utc_def plus_one_hour_def not_later_def earlier_fields_def
        same_moment_def local_micros_def toordinal_def ymd2ord_def days_before_year_def
        days_before_month_def DAYS_BEFORE_MONTH_def is_leap_def)
  have d: "has_event StaticCalendar_class day_calendar (monday_search\<lparr>title := ''Other''\<rparr>)
       = Inr False" by code_simp
  have e: "has_event StaticCalendar_class day_calendar
         (monday_search\<lparr>start := utc 2024 1 1 9 1\<rparr>) = Inr False" by code_simp
  have f: "has_event StaticCalendar_class day_calendar
         (monday_search\<lparr>event_end := utc 2024 1 1 10 1\<rparr>) = Inr False" by code_simp
  have g: "has_event StaticCalendar_class day_calendar (on_call\<lparr>event_id := None\<rparr>) = Inr True"
    by code_simp
  have h: "has_event StaticCalendar_class day_calendar
         (zoned_call\<lparr>start := utc 2024 1 1 14 0, event_end := utc 2024 1 1 15 0\<rparr>) = Inr True"
    by code_simp
  have i: "has_event StaticCalendar_class day_calendar dinner = Inr True" by code_simp
  show ?thesis using a b c d e f g h i by simp
qed


section \<open>The patch of one source event\<close>

lemma details_start:
  assumes "details config event = Inr d"
  shows "add_offset (override_time (start event) (start_time config)) (start_offset config)
           = Inr (start d)"
    and "add_offset (override_time (event_end event) (end_time config)) (end_offset config)
           = Inr (event_end d)"
  using assms by (auto simp: details_def split: sum.splits)

lemma dt_add_tzinfo: "dt_add d td = Inr r \<Longrightarrow> tzinfo r = tzinfo d"
  by (auto simp: dt_add_def Let_def split: if_splits prod.splits)

lemma add_offset_tzinfo: "add_offset d offset = Inr r \<Longrightarrow> tzinfo r = tzinfo d"
  by (auto simp: add_offset_def split: option.splits if_splits dest: dt_add_tzinfo)

lemma override_time_tzinfo: "tzinfo (override_time d t) = tzinfo d"
  by (simp add: override_time_def replace_hour_minute_def split: option.splits)

lemma add_offset_cases:
  assumes "add_offset x offset = Inr r"
  shows "(offset = None \<or> offset = Some 0 \<longrightarrow> r = x)
         \<and> (\<forall>td. offset = Some td \<and> td \<noteq> 0 \<longrightarrow> dt_add x td = Inr r)"
  using assms by (auto simp: add_offset_def split: option.splits if_splits)

text \<open>
  C6 as stated fails: with \<open>start_time = 10:00:00\<close> and a source start of
  08:00:45, the patched start is 10:00:45, which is not the source start with its
  time of day replaced by \<open>start_time\<close>.
\<close>

theorem start_time_keeps_seconds:
  "(case details (work_config\<lparr>start_time := Some ten_oclock\<rparr>) review_with_seconds of
      Inl err \<Rightarrow> False
    | Inr d \<Rightarrow> second (start d) = 45
              \<and> start d \<noteq> with_time_of_day (start review_with_seconds) ten_oclock)"
  by (simp add: details_def work_config_def review_with_seconds_def review_def utc_def
      ten_oclock_def with_time_of_day_def override_time_def add_offset_def
      replace_hour_minute_def)

text \<open>
  C6, amended (time-of-day override, then offset): when \<open>start_time\<close> is set, the
  patched start is the source start with its hour and minute replaced by those of
  \<open>start_time\<close>; year, month, day, second, microsecond and time zone are the
  source's. When \<open>start_offset\<close> is set too (and is not zero), the patched start is
  that value plus the offset. The same holds for \<open>end\<close> with \<open>end_time\<close> and
  \<open>end_offset\<close>, independently of the start. The time zone is always the source's.
\<close>

theorem details_time_then_offset:
  assumes "details config event = Inr d"
  shows "(\<forall>t. start_time config = Some t
              \<and> (start_offset config = None \<or> start_offset config = Some 0)
            \<longrightarrow> start d = (start event)\<lparr>hour := time_hour t, minute := time_minute t\<rparr>)
       \<and> (\<forall>t td. start_time config = Some t \<and> start_offset config = Some td \<and> td \<noteq> 0
            \<longrightarrow> dt_add ((start event)\<lparr>hour := time_hour t, minute := time_minute t\<rparr>) td
                  = Inr (start d))
       \<and> (\<forall>t. end_time config = Some t
              \<and> (end_offset config = None \<or> end_offset config = Some 0)
            \<longrightarrow> event_end d
                  = (event_end event)\<lparr>hour := time_hour t, minute := time_minute t\<rparr>)
       \<and> (\<forall>t td. end_time config = Some t \<and> end_offset config = Some td \<and> td \<noteq> 0
            \<longrightarrow> dt_add ((event_end event)\<lparr>hour := time_hour t, minute := time_minute t\<rparr>) td
                  = Inr (event_end d))
       \<and> tzinfo (start d) = tzinfo (start event)
       \<and> tzinfo (event_end d) = tzinfo (event_end event)"
proof -
  note s = details_start(1)[OF assms] and e = details_start(2)[OF assms]
  have tz: "tzinfo (start d) = tzinfo (start event)"
    "tzinfo (event_end d) = tzinfo (event_end event)"
    using add_offset_tzinfo[OF s] add_offset_tzinfo[OF e]
    by (simp_all add: override_time_tzinfo)
  show ?thesis
    using add_offset_cases[OF s] add_offset_cases[OF e] tz
    by (auto simp: override_time_def replace_hour_minute_def)
qed

theorem details_time_then_offset_witness:
  "details (work_config\<lparr>start_time := Some ten_oclock,
                        start_offset := Some (30 * 60 * 1000000)\<rparr>) review
     = Inr (review\<lparr>event_id := None, start := utc 2024 3 1 10 30,
                   metadata := [(''src_calendar'', Some ''work''), (''src_id'', Some ''r1'')]\<rparr>)
   \<and> dt_add ((utc 2024 3 1 8 0)\<lparr>hour := 10, minute := 0\<rparr>) (30 * 60 * 1000000)
       = Inr (utc 2024 3 1 10 30)"
proof -
  have d: "details (work_config\<lparr>start_time := Some ten_oclock,
                                start_offset := Some (30 * 60 * 1000000)\<rparr>) review
     = Inr (review\<lparr>event_id := None, start := utc 2024 3 1 10 30,
                   metadata := [(''src_calendar'', Some ''work''), (''src_id'', Some ''r1'')]\<rparr>)"
    by (simp add: details_def work_config_def review_def ten_oclock_def override_time_def
        add_offset_def replace_hour_minute_def dt_add_def local_micros_def ord2ymd_def
        date_simps Let_def)
  from details_time_then_offset[OF d] show ?thesis
    using d by (simp add: work_config_def ten_oclock_def review_def)
qed

section \<open>Reconciliation: the index and the clean-up\<close>

lemma index_existing_covers:
  assumes "index_existing it ids dups = Inr (ids', dups')"
  shows "set ids \<subseteq> set ids' \<and> set dups \<subseteq> set dups'
         \<and> (\<forall>y\<in>set (yielded it). (src_id_of y, event_id y) \<in> set ids' \<or> event_id y \<in> set dups')"
  using assms
proof (induction it arbitrary: ids dups)
  case (Yield y rest)
  show ?case
  proof (cases "src_id_of y \<in> set (map fst ids)")
    case True
    with Yield.prems have "index_existing rest ids (dups @ [event_id y]) = Inr (ids', dups')"
      by simp
    from Yield.IH[OF this] show ?thesis by auto
  next
    case False
    with Yield.prems have
      "index_existing rest (ids @ [(src_id_of y, event_id y)]) dups = Inr (ids', dups')"
      by simp
    from Yield.IH[OF this] show ?thesis by auto
  qed
qed auto

lemma index_existing_distinct:
  assumes "index_existing it ids dups = Inr (ids', dups')" and "distinct (map fst ids)"
  shows "distinct (map fst ids')"
  using assms
proof (induction it arbitrary: ids dups)
  case (Yield y rest)
  show ?case
  proof (cases "src_id_of y \<in> set (map fst ids)")
    case True
    with Yield.prems have "index_existing rest ids (dups @ [event_id y]) = Inr (ids', dups')"
      by simp
    from Yield.IH[OF this Yield.prems(2)] show ?thesis .
  next
    case False
    with Yield.prems have
      "index_existing rest (ids @ [(src_id_of y, event_id y)]) dups = Inr (ids', dups')"
      by simp
    from Yield.IH[OF this] False Yield.prems(2) show ?thesis by simp
  qed
qed auto

lemma ex_nat_split: "(\<exists>j. P j) \<longleftrightarrow> P 0 \<or> (\<exists>j. P (Suc j))"
  by (metis not0_implies_Suc)

lemma first_seen_at_Cons [simp]:
  "first_seen_at (y # ys) 0"
  "first_seen_at (y # ys) (Suc j) \<longleftrightarrow> first_seen_at ys j \<and> src_id_of (ys ! j) \<noteq> src_id_of y"
  by (auto simp: first_seen_at_def All_less_Suc2)

lemma seen_before_Cons [simp]:
  "\<not> seen_before (y # ys) 0"
  "seen_before (y # ys) (Suc j) \<longleftrightarrow>
     j < length ys \<and> (src_id_of (ys ! j) = src_id_of y \<or> seen_before ys j)"
  by (auto simp: seen_before_def Ex_less_Suc2)

lemma seen_before_length: "seen_before ys j \<Longrightarrow> j < length ys"
  by (simp add: seen_before_def)

lemma ex_first_Cons:
  "(\<exists>j. first_seen_at (y # ys) j \<and> src_id_of ((y # ys) ! j) = k \<and> event_id ((y # ys) ! j) = i)
     \<longleftrightarrow> (src_id_of y = k \<and> event_id y = i)
          \<or> (src_id_of y \<noteq> k
             \<and> (\<exists>j. first_seen_at ys j \<and> src_id_of (ys ! j) = k \<and> event_id (ys ! j) = i))"
  by (subst ex_nat_split) auto

lemma ex_seen_Cons:
  "(\<exists>j<length (y # ys). event_id ((y # ys) ! j) = d
         \<and> (src_id_of ((y # ys) ! j) \<in> K \<or> seen_before (y # ys) j))
     \<longleftrightarrow> (event_id y = d \<and> src_id_of y \<in> K)
          \<or> (\<exists>j<length ys. event_id (ys ! j) = d
                \<and> (src_id_of (ys ! j) \<in> insert (src_id_of y) K \<or> seen_before ys j))"
  by (subst ex_nat_split) auto

lemma in_keys: "(k, b) \<in> set ids \<Longrightarrow> k \<in> fst ` set ids"
  by force

lemma index_existing_first:
  assumes "index_existing it ids dups = Inr (ids', dups')"
  shows "(k, i) \<in> set ids' \<longleftrightarrow>
            (k, i) \<in> set ids
            \<or> (k \<notin> fst ` set ids
               \<and> (\<exists>j. first_seen_at (yielded it) j \<and> src_id_of (yielded it ! j) = k
                      \<and> event_id (yielded it ! j) = i))"
  using assms
proof (induction it arbitrary: ids dups)
  case Stop
  then show ?case by (auto simp: first_seen_at_def)
next
  case (Raise err)
  then show ?case by simp
next
  case (Yield y rest)
  show ?case
  proof (cases "src_id_of y \<in> set (map fst ids)")
    case True
    with Yield.prems have "index_existing rest ids (dups @ [event_id y]) = Inr (ids', dups')"
      by simp
    from Yield.IH[OF this] True show ?thesis
      unfolding yielded.simps ex_first_Cons by (auto dest: in_keys)
  next
    case False
    with Yield.prems have
      "index_existing rest (ids @ [(src_id_of y, event_id y)]) dups = Inr (ids', dups')"
      by simp
    from Yield.IH[OF this] False show ?thesis
      unfolding yielded.simps ex_first_Cons by (auto dest: in_keys)
  qed
qed

lemma index_existing_later:
  assumes "index_existing it ids dups = Inr (ids', dups')"
  shows "d \<in> set dups' \<longleftrightarrow>
            d \<in> set dups
            \<or> (\<exists>j<length (yielded it). event_id (yielded it ! j) = d
                  \<and> (src_id_of (yielded it ! j) \<in> fst ` set ids \<or> seen_before (yielded it) j))"
  using assms
proof (induction it arbitrary: ids dups)
  case Stop
  then show ?case by auto
next
  case (Raise err)
  then show ?case by simp
next
  case (Yield y rest)
  show ?case
  proof (cases "src_id_of y \<in> set (map fst ids)")
    case True
    then have ins: "insert (src_id_of y) (fst ` set ids) = fst ` set ids" by auto
    from True Yield.prems have "index_existing rest ids (dups @ [event_id y]) = Inr (ids', dups')"
      by simp
    from Yield.IH[OF this] True show ?thesis
      unfolding yielded.simps ex_seen_Cons ins by (auto dest: in_keys)
  next
    case False
    with Yield.prems have
      "index_existing rest (ids @ [(src_id_of y, event_id y)]) dups = Inr (ids', dups')"
      by simp
    from Yield.IH[OF this] False show ?thesis
      unfolding yielded.simps ex_seen_Cons by (auto dest: in_keys)
  qed
qed

lemma in_delete: "(k', i) \<in> set (AList.delete k al) \<longleftrightarrow> k' \<noteq> k \<and> (k', i) \<in> set al"
  by (auto simp: AList.delete_eq)

lemma sync_event_index:
  assumes "sync_event cal config e (ids, s, tr) = Inr (ids', s', tr')"
  shows "ids' = AList.delete (event_id e) ids"
    and "\<exists>c. tr' = tr \<or> tr' = tr @ [Add_event c] \<or> tr' = tr @ [Update_event c]"
proof -
  have none: "map_of ids (event_id e) = None \<Longrightarrow> AList.delete (event_id e) ids = ids"
    by (simp add: map_of_eq_None_iff)
  show "ids' = AList.delete (event_id e) ids"
    using assms none
    by (auto simp: sync_event_def split: sum.splits option.splits if_splits)
  show "\<exists>c. tr' = tr \<or> tr' = tr @ [Add_event c] \<or> tr' = tr @ [Update_event c]"
    using assms
    by (auto simp: sync_event_def split: sum.splits option.splits if_splits)
qed

lemma sync_events_index:
  assumes "sync_events cal config src (ids, s, tr) = Inr (ids', s', tr')"
  shows "((k, i) \<in> set ids' \<longleftrightarrow> (k, i) \<in> set ids \<and> k \<notin> event_id ` set src)
         \<and> set tr \<subseteq> set tr'"
  using assms
proof (induction src arbitrary: ids s tr)
  case Nil
  then show ?case by simp
next
  case (Cons e rest)
  then obtain ids1 s1 tr1 where
    1: "sync_event cal config e (ids, s, tr) = Inr (ids1, s1, tr1)"
    and 2: "sync_events cal config rest (ids1, s1, tr1) = Inr (ids', s', tr')"
    by (auto split: sum.splits)
  from sync_event_index[OF 1] Cons.IH[OF 2] show ?case
    by (auto simp: in_delete)
qed

lemma delete_all_trace:
  assumes "delete_all cal ds st = Inr (s', tr')"
  shows "tr' = snd st @ map Delete_event ds"
  using assms
proof (induction ds arbitrary: st)
  case Nil
  then show ?case by simp
next
  case (Cons i rest)
  then obtain self1 where
    "delete_all cal rest (self1, snd st @ [Delete_event i]) = Inr (s', tr')"
    by (auto split: sum.splits)
  from Cons.IH[OF this] show ?case by simp
qed

lemma sync_from_returns:
  assumes "sync_from cal self src config now0 now1 = Inr (self', tr)"
  obtains flt ids dups remaining s1 tr1 s2 tr2 where
    "sync_filter config now0 now1 = Inr flt"
    "index_existing (events cal self (Some flt)) [] [] = Inr (ids, dups)"
    "sync_events cal config src (ids, self, []) = Inr (remaining, s1, tr1)"
    "delete_all cal (map snd remaining) (s1, tr1) = Inr (s2, tr2)"
    "delete_all cal dups (s2, tr2) = Inr (self', tr)"
  using assms
  by (auto simp: sync_from_def split: sum.splits prod.splits)

text \<open>
  C3 (orphan cleanup): when \<open>sync_from\<close> returns, every destination record that the
  first loop received from \<open>events\<close> (it carries the run's provenance tag and lies in
  the sync window) and whose \<open>src_id\<close> is the identifier of no source event has been
  deleted by its destination identifier: \<open>delete_event\<close> was called with it and
  returned.
\<close>

theorem sync_from_deletes_orphans:
  assumes "sync_from cal self src config now0 now1 = Inr (self', tr)"
      and "sync_filter config now0 now1 = Inr flt"
      and "y \<in> set (yielded (events cal self (Some flt)))"
      and "src_id_of y \<notin> event_id ` set src"
  shows "Delete_event (event_id y) \<in> set tr"
proof -
  from assms(1) obtain flt' ids dups remaining s1 tr1 s2 tr2 where
    f: "sync_filter config now0 now1 = Inr flt'"
    and ix: "index_existing (events cal self (Some flt')) [] [] = Inr (ids, dups)"
    and se: "sync_events cal config src (ids, self, []) = Inr (remaining, s1, tr1)"
    and d1: "delete_all cal (map snd remaining) (s1, tr1) = Inr (s2, tr2)"
    and d2: "delete_all cal dups (s2, tr2) = Inr (self', tr)"
    by (rule sync_from_returns)
  from f assms(2) have [simp]: "flt' = flt" by simp
  have tr: "tr = tr1 @ map Delete_event (map snd remaining) @ map Delete_event dups"
    using delete_all_trace[OF d1] delete_all_trace[OF d2] by simp
  from index_existing_covers[OF ix] assms(3)
  consider "(src_id_of y, event_id y) \<in> set ids" | "event_id y \<in> set dups"
    by auto
  then show ?thesis
  proof cases
    case 1
    with sync_events_index[OF se] assms(4) have "(src_id_of y, event_id y) \<in> set remaining"
      by simp
    then have "event_id y \<in> set (map snd remaining)" by force
    then show ?thesis by (auto simp: tr)
  next
    case 2
    then show ?thesis by (auto simp: tr)
  qed
qed

theorem sync_from_deletes_orphans_witness:
  "sync_from MemoryCalendar store_with_orphan [standup] work_config new_year new_year
     = Inr ([(Some ''d2'', synced ''d2'' ''abc'' standup)],
            [Update_event (synced ''d2'' ''abc'' standup), Delete_event (Some ''d1'')])
   \<and> sync_filter work_config new_year new_year = Inr work_filter
   \<and> synced ''d1'' ''gone'' review
       \<in> set (yielded (events MemoryCalendar store_with_orphan (Some work_filter)))
   \<and> src_id_of (synced ''d1'' ''gone'' review) \<notin> event_id ` set [standup]
   \<and> Delete_event (Some ''d1'')
       \<in> set [Update_event (synced ''d2'' ''abc'' standup), Delete_event (Some ''d1'')]"
proof -
  have run: "sync_from MemoryCalendar store_with_orphan [standup] work_config new_year new_year
     = Inr ([(Some ''d2'', synced ''d2'' ''abc'' standup)],
            [Update_event (synced ''d2'' ''abc'' standup), Delete_event (Some ''d1'')])"
    by code_simp
  have flt: "sync_filter work_config new_year new_year = Inr work_filter"
    by code_simp
  have y: "synced ''d1'' ''gone'' review
       \<in> set (yielded (events MemoryCalendar store_with_orphan (Some work_filter)))"
    by code_simp
  have orphan: "src_id_of (synced ''d1'' ''gone'' review) \<notin> event_id ` set [standup]"
    by code_simp
  from sync_from_deletes_orphans[OF run flt y orphan] run flt y orphan
  show ?thesis by simp
qed

text \<open>
  C4 (duplicate collapse): the mapping built by the first loop sends a \<open>src_id\<close> to
  the destination identifier of the first event that carries it; the identifier of
  every event whose \<open>src_id\<close> was seen at an earlier position is recorded as a
  duplicate; and when \<open>sync_from\<close> returns, every recorded duplicate has been
  deleted, whatever the source sequence holds.
\<close>

theorem sync_from_collapses_duplicates:
  assumes "sync_from cal self src config now0 now1 = Inr (self', tr)"
      and "sync_filter config now0 now1 = Inr flt"
      and "index_existing (events cal self (Some flt)) [] [] = Inr (existing_ids, duplicates)"
      and "ys = yielded (events cal self (Some flt))"
  shows "(\<forall>k i. map_of existing_ids k = Some i \<longleftrightarrow>
            (\<exists>j. first_seen_at ys j \<and> src_id_of (ys ! j) = k \<and> event_id (ys ! j) = i))
       \<and> (\<forall>d. d \<in> set duplicates \<longleftrightarrow> (\<exists>j. seen_before ys j \<and> event_id (ys ! j) = d))
       \<and> (\<forall>d\<in>set duplicates. Delete_event d \<in> set tr)"
proof -
  from assms(1) obtain flt' ids dups remaining s1 tr1 s2 tr2 where
    f: "sync_filter config now0 now1 = Inr flt'"
    and ix: "index_existing (events cal self (Some flt')) [] [] = Inr (ids, dups)"
    and se: "sync_events cal config src (ids, self, []) = Inr (remaining, s1, tr1)"
    and d1: "delete_all cal (map snd remaining) (s1, tr1) = Inr (s2, tr2)"
    and d2: "delete_all cal dups (s2, tr2) = Inr (self', tr)"
    by (rule sync_from_returns)
  from f assms(2) have [simp]: "flt' = flt" by simp
  from ix assms(3) have [simp]: "ids = existing_ids" "dups = duplicates" by simp_all
  have tr: "tr = tr1 @ map Delete_event (map snd remaining) @ map Delete_event duplicates"
    using delete_all_trace[OF d1] delete_all_trace[OF d2] by simp
  have dist: "distinct (map fst existing_ids)"
    using index_existing_distinct[OF assms(3)] by simp
  have a: "map_of existing_ids k = Some i \<longleftrightarrow>
            (\<exists>j. first_seen_at ys j \<and> src_id_of (ys ! j) = k \<and> event_id (ys ! j) = i)" for k i
    using index_existing_first[OF assms(3), of k i] dist
    by (simp add: assms(4))
  have b: "d \<in> set duplicates \<longleftrightarrow> (\<exists>j. seen_before ys j \<and> event_id (ys ! j) = d)" for d
    using index_existing_later[OF assms(3), of d]
    by (auto simp: assms(4) dest: seen_before_length)
  show ?thesis using a b by (simp add: tr)
qed

theorem sync_from_collapses_duplicates_witness:
  "sync_from MemoryCalendar store_with_duplicate [standup] work_config new_year new_year
     = Inr ([(Some ''d1'', synced ''d1'' ''abc'' standup)],
            [Update_event (synced ''d1'' ''abc'' standup), Delete_event (Some ''d2'')])
   \<and> index_existing (events MemoryCalendar store_with_duplicate (Some work_filter)) [] []
       = Inr ([(Some ''abc'', Some ''d1'')], [Some ''d2''])
   \<and> map_of [(Some ''abc'', Some ''d1'')] (Some ''abc'') = Some (Some ''d1'')
   \<and> first_seen_at (map snd store_with_duplicate) 0
   \<and> seen_before (map snd store_with_duplicate) 1
   \<and> Delete_event (Some ''d2'')
       \<in> set [Update_event (synced ''d1'' ''abc'' standup), Delete_event (Some ''d2'')]"
proof -
  have run: "sync_from MemoryCalendar store_with_duplicate [standup] work_config new_year new_year
     = Inr ([(Some ''d1'', synced ''d1'' ''abc'' standup)],
            [Update_event (synced ''d1'' ''abc'' standup), Delete_event (Some ''d2'')])"
    by code_simp
  have flt: "sync_filter work_config new_year new_year = Inr work_filter"
    by code_simp
  have ix: "index_existing (events MemoryCalendar store_with_duplicate (Some work_filter)) [] []
       = Inr ([(Some ''abc'', Some ''d1'')], [Some ''d2''])"
    by code_simp
  have ys: "map snd store_with_duplicate
       = yielded (events MemoryCalendar store_with_duplicate (Some work_filter))"
    by code_simp
  have pos: "first_seen_at (map snd store_with_duplicate) 0"
    "seen_before (map snd store_with_duplicate) 1"
    by (simp_all add: first_seen_at_def seen_before_def store_with_duplicate_def
        src_id_of_def synced_def dict_get_def)
  from sync_from_collapses_duplicates[OF run flt ix ys] run ix pos
  show ?thesis by simp
qed

section \<open>Reconciliation on the in-memory store\<close>

lemma foldr_max_ge: "x \<in> set xs \<Longrightarrow> x \<le> foldr max xs (0::nat)"
  by (induction xs) auto

lemma fresh_id_fresh: "Some (fresh_id s) \<notin> fst ` set s"
proof
  assume "Some (fresh_id s) \<in> fst ` set s"
  then obtain kv where kv: "kv \<in> set s" "fst kv = Some (fresh_id s)" by auto
  then have "length (fresh_id s)
      \<in> set (map (\<lambda>kv. case fst kv of None \<Rightarrow> 0 | Some i \<Rightarrow> length i) s)"
    by force
  from foldr_max_ge[OF this] show False
    by (simp add: fresh_id_def)
qed

lemma Event_update_eq: "Event_update found d = d\<lparr>event_id := event_id found\<rparr>"
  by (simp add: Event_update_def)

lemma details_event_id: "details config f = Inr d \<Longrightarrow> event_id d = None"
  by (auto simp: details_def split: sum.splits)

lemma details_metadata:
  "details config f = Inr d \<Longrightarrow>
     metadata d = [(''src_calendar'', Some (src_calendar config)), (''src_id'', event_id f)]"
  by (auto simp: details_def split: sum.splits)

lemma memory_sync_event_cases:
  assumes "sync_event MemoryCalendar config f (ids, s, tr) = Inr (ids', s', tr')"
  obtains (update) d dest found where
      "details config f = Inr d" "map_of ids (event_id f) = Some dest"
      "map_of s dest = Some found" "event_id found \<in> fst ` set s"
      "ids' = AList.delete (event_id f) ids"
      "s' = AList.update (event_id found) (d\<lparr>event_id := event_id found\<rparr>) s"
      "tr' = tr @ [Update_event (d\<lparr>event_id := event_id found\<rparr>)]"
  | (skip) d where
      "details config f = Inr d" "map_of ids (event_id f) = None"
      "has_event MemoryCalendar s d = Inr True" "ids' = ids" "s' = s" "tr' = tr"
  | (add) d where
      "details config f = Inr d" "map_of ids (event_id f) = None"
      "has_event MemoryCalendar s d = Inr False" "ids' = ids"
      "s' = s @ [(Some (fresh_id s), d\<lparr>event_id := Some (fresh_id s)\<rparr>)]"
      "tr' = tr @ [Add_event d]"
  using assms
  by (auto simp: sync_event_def MemoryCalendar_def memory_get_event_def memory_update_event_def
      memory_create_event_def memory_add_event_def Event_update_eq
      split: sum.splits option.splits if_splits)

lemma in_update:
  assumes "(k', r) \<in> set (AList.update k v s)" and "distinct (map fst s)"
  shows "(k', r) = (k, v) \<or> ((k', r) \<in> set s \<and> k' \<noteq> k)"
  using assms by (induction s) (force split: if_splits)+

lemma update_keeps: "(k', r) \<in> set s \<Longrightarrow> k' \<noteq> k \<Longrightarrow> (k', r) \<in> set (AList.update k v s)"
  by (induction s) auto

lemma update_in: "(k, v) \<in> set (AList.update k v s)"
  by (induction s) auto

lemma wf_store_update:
  assumes "wf_store s" and "event_id v = k"
  shows "wf_store (AList.update k v s)"
proof -
  have "event_id (snd kv) = fst kv" if "kv \<in> set (AList.update k v s)" for kv
  proof -
    from that have "(fst kv, snd kv) \<in> set (AList.update k v s)" by simp
    from in_update[OF this] assms show ?thesis
      by (auto simp: wf_store_def)
  qed
  then show ?thesis
    using assms by (simp add: wf_store_def distinct_update)
qed

lemma wf_store_append:
  assumes "wf_store s" and "k \<notin> fst ` set s" and "event_id v = k"
  shows "wf_store (s @ [(k, v)])"
  using assms by (auto simp: wf_store_def)

lemma patched_metadata:
  "patched config f k r \<Longrightarrow>
     metadata r = [(''src_calendar'', Some (src_calendar config)), (''src_id'', event_id f)]"
  by (auto simp: patched_def details_metadata split: sum.splits)

lemma memory_step:
  assumes step: "sync_event MemoryCalendar config f (ids, s, tr) = Inr (ids', s', tr')"
      and wf: "wf_store s"
  shows "wf_store s'"
    and "fst ` set s \<subseteq> fst ` set s'"
    and "\<forall>kv\<in>set s'. kv \<in> set s \<or> patched config f (fst kv) (snd kv)"
    and "\<forall>kv\<in>set s. fst kv \<notin> snd ` set ids \<longrightarrow> kv \<in> set s'"
proof -
  from step show "wf_store s'"
  proof (cases rule: memory_sync_event_cases)
    case (update d dest found)
    then show ?thesis using wf by (simp add: wf_store_update)
  next
    case (skip d)
    then show ?thesis using wf by simp
  next
    case (add d)
    then show ?thesis using wf fresh_id_fresh[of s] by (simp add: wf_store_append)
  qed
  from step show "fst ` set s \<subseteq> fst ` set s'"
  proof (cases rule: memory_sync_event_cases)
    case (update d dest found)
    then show ?thesis by (auto simp: dom_update)
  qed auto
  from step show "\<forall>kv\<in>set s'. kv \<in> set s \<or> patched config f (fst kv) (snd kv)"
  proof (cases rule: memory_sync_event_cases)
    case (update d dest found)
    have "kv \<in> set s \<or> patched config f (fst kv) (snd kv)" if "kv \<in> set s'" for kv
    proof -
      from that update have "(fst kv, snd kv)
          \<in> set (AList.update (event_id found) (d\<lparr>event_id := event_id found\<rparr>) s)"
        by simp
      from in_update[OF this] wf update(1) show ?thesis
        by (auto simp: wf_store_def patched_def)
    qed
    then show ?thesis by blast
  next
    case (skip d)
    then show ?thesis by simp
  next
    case (add d)
    then show ?thesis by (auto simp: patched_def)
  qed
  from step show "\<forall>kv\<in>set s. fst kv \<notin> snd ` set ids \<longrightarrow> kv \<in> set s'"
  proof (cases rule: memory_sync_event_cases)
    case (update d dest found)
    from update(2) have "(event_id f, dest) \<in> set ids" by (rule map_of_SomeD)
    then have dest: "dest \<in> snd ` set ids" by force
    from update(3) have "(dest, found) \<in> set s" by (rule map_of_SomeD)
    with wf have found: "event_id found = dest" by (force simp: wf_store_def)
    have "kv \<in> set s'" if "kv \<in> set s" "fst kv \<notin> snd ` set ids" for kv
    proof -
      from that dest have "fst kv \<noteq> dest" by auto
      with that(1) have "(fst kv, snd kv) \<in> set (AList.update dest (d\<lparr>event_id := dest\<rparr>) s)"
        by (intro update_keeps) simp_all
      then show ?thesis using update(6) found by simp
    qed
    then show ?thesis by blast
  qed auto
qed

lemma memory_steps:
  assumes "sync_events MemoryCalendar config gs (ids, s, tr) = Inr (ids', s', tr')"
      and "wf_store s"
  shows "wf_store s'"
    and "fst ` set s \<subseteq> fst ` set s'"
    and "\<forall>kv\<in>set s'. kv \<in> set s \<or> (\<exists>g\<in>set gs. patched config g (fst kv) (snd kv))"
    and "\<forall>kv\<in>set s. fst kv \<notin> snd ` set ids \<longrightarrow> kv \<in> set s'"
    and "set ids' \<subseteq> set ids"
  using assms
proof (induction gs arbitrary: ids s tr)
  case Nil
  {
    case 1 then show ?case by simp
  next
    case 2 then show ?case by simp
  next
    case 3 then show ?case by simp
  next
    case 4 then show ?case by simp
  next
    case 5 then show ?case by simp
  }
next
  case (Cons g rest)
  {
    case 1
    then obtain ids1 s1 tr1 where
      a: "sync_event MemoryCalendar config g (ids, s, tr) = Inr (ids1, s1, tr1)"
      and b: "sync_events MemoryCalendar config rest (ids1, s1, tr1) = Inr (ids', s', tr')"
      by (auto split: sum.splits)
    from Cons.IH(1)[OF b memory_step(1)[OF a 1(2)]] show ?case .
  next
    case 2
    then obtain ids1 s1 tr1 where
      a: "sync_event MemoryCalendar config g (ids, s, tr) = Inr (ids1, s1, tr1)"
      and b: "sync_events MemoryCalendar config rest (ids1, s1, tr1) = Inr (ids', s', tr')"
      by (auto split: sum.splits)
    from Cons.IH(2)[OF b memory_step(1)[OF a 2(2)]] memory_step(2)[OF a 2(2)]
    show ?case by blast
  next
    case 3
    then obtain ids1 s1 tr1 where
      a: "sync_event MemoryCalendar config g (ids, s, tr) = Inr (ids1, s1, tr1)"
      and b: "sync_events MemoryCalendar config rest (ids1, s1, tr1) = Inr (ids', s', tr')"
      by (auto split: sum.splits)
    from Cons.IH(3)[OF b memory_step(1)[OF a 3(2)]] memory_step(3)[OF a 3(2)]
    show ?case by auto
  next
    case 4
    then obtain ids1 s1 tr1 where
      a: "sync_event MemoryCalendar config g (ids, s, tr) = Inr (ids1, s1, tr1)"
      and b: "sync_events MemoryCalendar config rest (ids1, s1, tr1) = Inr (ids', s', tr')"
      by (auto split: sum.splits)
    have "set ids1 \<subseteq> set ids"
      using sync_event_index(1)[OF a] by (auto simp: AList.delete_eq)
    then have sub: "snd ` set ids1 \<subseteq> snd ` set ids" by blast
    from Cons.IH(4)[OF b memory_step(1)[OF a 4(2)]] memory_step(4)[OF a 4(2)] sub
    show ?case by blast
  next
    case 5
    then obtain ids1 s1 tr1 where
      a: "sync_event MemoryCalendar config g (ids, s, tr) = Inr (ids1, s1, tr1)"
      and b: "sync_events MemoryCalendar config rest (ids1, s1, tr1) = Inr (ids', s', tr')"
      by (auto split: sum.splits)
    have "set ids1 \<subseteq> set ids"
      using sync_event_index(1)[OF a] by (auto simp: AList.delete_eq)
    with Cons.IH(5)[OF b memory_step(1)[OF a 5(2)]] show ?case by blast
  }
qed

lemma memory_delete_all:
  assumes "delete_all MemoryCalendar ds (s, tr) = Inr (s', tr')"
  shows "set s' = {kv \<in> set s. fst kv \<notin> set ds}"
    and "wf_store s \<Longrightarrow> wf_store s'"
  using assms
proof (induction ds arbitrary: s tr)
  case Nil
  {
    case 1 then show ?case by simp
  next
    case 2 then show ?case by simp
  }
next
  case (Cons i rest)
  {
    case 1
    then have b: "delete_all MemoryCalendar rest (AList.delete i s, tr @ [Delete_event i])
        = Inr (s', tr')"
      by (auto simp: MemoryCalendar_def memory_delete_event_def split: sum.splits if_splits)
    from Cons.IH(1)[OF b] show ?case by (auto simp: AList.delete_eq)
  next
    case 2
    then have b: "delete_all MemoryCalendar rest (AList.delete i s, tr @ [Delete_event i])
        = Inr (s', tr')"
      by (auto simp: MemoryCalendar_def memory_delete_event_def split: sum.splits if_splits)
    have "wf_store (AList.delete i s)"
      using 2(1) distinct_delete[of s i] by (auto simp: wf_store_def AList.delete_eq)
    from Cons.IH(2)[OF this b] show ?case .
  }
qed

lemma yielded_filter_iter: "set (yielded (filter_iter p xs)) \<subseteq> set xs"
  by (induction xs) (auto split: sum.splits)

lemma index_existing_values:
  assumes "index_existing it [] [] = Inr (ids, dups)"
  shows "snd ` set ids \<union> set dups \<subseteq> event_id ` set (yielded it)"
proof -
  have "i \<in> event_id ` set (yielded it)" if "(k, i) \<in> set ids" for k i
    using index_existing_first[OF assms, of k i] that
    by (auto simp: first_seen_at_def)
  moreover have "d \<in> event_id ` set (yielded it)" if "d \<in> set dups" for d
    using index_existing_later[OF assms, of d] that by auto
  ultimately show ?thesis by auto
qed

lemma memory_index_values:
  assumes "index_existing (events MemoryCalendar s flt) [] [] = Inr (ids, dups)"
      and "wf_store s"
  shows "snd ` set ids \<union> set dups \<subseteq> fst ` set s"
proof -
  have "set (yielded (events MemoryCalendar s flt)) \<subseteq> snd ` set s"
    using yielded_filter_iter[of _ "map snd s"]
    by (simp add: MemoryCalendar_def memory_events_def)
  then have "event_id ` set (yielded (events MemoryCalendar s flt)) \<subseteq> event_id ` snd ` set s"
    by blast
  also have "\<dots> \<subseteq> fst ` set s"
    using assms(2) by (force simp: wf_store_def)
  finally show ?thesis using index_existing_values[OF assms(1)] by blast
qed

lemma any_matches_True:
  "any_matches search it = Inr True \<Longrightarrow> \<exists>x\<in>set (yielded it). matches x search"
  by (induction it) (auto split: if_splits)

lemma memory_has_event_True:
  assumes "has_event MemoryCalendar s d = Inr True"
  shows "\<exists>r\<in>snd ` set s. matches r d"
proof -
  from assms obtain x where
    "x \<in> set (yielded (events MemoryCalendar s (Some (day_filter d))))" "matches x d"
    using any_matches_True by (auto simp: has_event_def)
  moreover have "set (yielded (events MemoryCalendar s (Some (day_filter d)))) \<subseteq> snd ` set s"
    using yielded_filter_iter[of _ "map snd s"]
    by (simp add: MemoryCalendar_def memory_events_def)
  ultimately show ?thesis by blast
qed

lemma filter_unique:
  assumes "distinct (map fst s)" and "(k0, v) \<in> set s" and "P v"
      and "\<forall>kv\<in>set s. P (snd kv) \<longrightarrow> fst kv = k0"
  shows "filter P (map snd s) = [v]"
  using assms
proof (induction s)
  case Nil
  then show ?case by simp
next
  case (Cons kv s)
  show ?case
  proof (cases "fst kv = k0")
    case True
    with Cons.prems have kv: "kv = (k0, v)"
      by (cases kv) (auto simp: rev_image_eqI)
    have "\<not> P (snd x)" if "x \<in> set s" for x
      using that Cons.prems(1,4) True by (metis distinct.simps(2) image_eqI list.set_intros(2) list.simps(9) set_map)
    then have "filter P (map snd s) = []" by (auto simp: filter_empty_conv)
    with kv Cons.prems(3) show ?thesis by simp
  next
    case False
    with Cons.prems have "\<not> P (snd kv)" "(k0, v) \<in> set s" by auto
    with Cons.IH Cons.prems show ?thesis by simp
  qed
qed

lemma sync_events_append:
  "sync_events cal config (xs @ ys) st =
     (case sync_events cal config xs st of
        Inl failed \<Rightarrow> Inl failed
      | Inr st' \<Rightarrow> sync_events cal config ys st')"
  by (induction xs arbitrary: st) (auto split: sum.splits)

lemma matches_patched: "patched config g k r \<Longrightarrow> details config g = Inr dg \<Longrightarrow> matches r d = matches dg d"
  by (auto simp: patched_def matches_def)

lemma patched_obtain:
  assumes "patched config g k r"
  obtains dg where "details config g = Inr dg" "r = dg\<lparr>event_id := k\<rparr>"
  using assms by (auto simp: patched_def split: sum.splits)

text \<open>
  On the in-memory store the orphan of C3 is gone from the store when the run returns.
\<close>

lemma memory_orphan_gone:
  assumes "sync_from MemoryCalendar s src config now0 now1 = Inr (s', tr)"
      and "sync_filter config now0 now1 = Inr flt"
      and "y \<in> set (yielded (events MemoryCalendar s (Some flt)))"
      and "src_id_of y \<notin> event_id ` set src"
  shows "event_id y \<notin> fst ` set s'"
proof -
  from assms(1) obtain flt' ids dups remaining s1 tr1 s2 tr2 where
    f: "sync_filter config now0 now1 = Inr flt'"
    and ix: "index_existing (events MemoryCalendar s (Some flt')) [] [] = Inr (ids, dups)"
    and se: "sync_events MemoryCalendar config src (ids, s, []) = Inr (remaining, s1, tr1)"
    and d1: "delete_all MemoryCalendar (map snd remaining) (s1, tr1) = Inr (s2, tr2)"
    and d2: "delete_all MemoryCalendar dups (s2, tr2) = Inr (s', tr)"
    by (rule sync_from_returns)
  from f assms(2) have [simp]: "flt' = flt" by simp
  have s': "set s' = {kv \<in> set s1. fst kv \<notin> set (map snd remaining) \<and> fst kv \<notin> set dups}"
    using memory_delete_all(1)[OF d1] memory_delete_all(1)[OF d2] by auto
  from index_existing_covers[OF ix] assms(3)
  consider "(src_id_of y, event_id y) \<in> set ids" | "event_id y \<in> set dups"
    by auto
  then have "event_id y \<in> set (map snd remaining) \<or> event_id y \<in> set dups"
  proof cases
    case 1
    with sync_events_index[OF se] assms(4) have "(src_id_of y, event_id y) \<in> set remaining"
      by simp
    then have "event_id y \<in> set (map snd remaining)" by force
    then show ?thesis ..
  next
    case 2
    then show ?thesis ..
  qed
  then have del: "event_id y \<in> set (map snd remaining) \<union> set dups" by blast
  show ?thesis
  proof
    assume "event_id y \<in> fst ` set s'"
    then obtain kv where kv: "kv \<in> set s'" "fst kv = event_id y" by auto
    from kv(1) s' have "fst kv \<notin> set (map snd remaining) \<union> set dups" by blast
    with kv(2) del show False by simp
  qed
qed

text \<open>
  C5 as stated fails: the destination holds an untagged event equal to the source event
  on title, start and end. The source identifier is absent from the index,
  \<open>has_event\<close> reports the match, nothing is added, and after the run no record
  carries the two-key metadata.
\<close>

theorem has_event_guard_skips_new_event:
  "index_existing (events MemoryCalendar store_with_copy (Some work_filter)) [] [] = Inr ([], [])
   \<and> sync_from MemoryCalendar store_with_copy [standup] work_config new_year new_year
       = Inr (store_with_copy, [])
   \<and> filter (\<lambda>r. metadata r = [(''src_calendar'', Some ''work''), (''src_id'', Some ''abc'')])
        (map snd store_with_copy) = []"
  by code_simp

text \<open>
  C5, amended (creation of a new record with exact provenance metadata): on a
  well-formed in-memory destination and a source whose identifiers are pairwise
  distinct, take a source event \<open>e\<close> whose identifier is absent from the index of the
  first loop, with patch \<open>d\<close>. If no destination record and no patch of another
  source event equals \<open>d\<close> on title, start and end (so the \<open>has_event\<close> guard does
  not skip it), and no destination record already carries the metadata of \<open>d\<close>,
  then after \<open>sync_from\<close> returns the destination holds exactly one record with
  that metadata. The metadata is exactly the two keys \<open>src_calendar\<close> and
  \<open>src_id\<close>, whatever metadata the source event carried; the record is \<open>d\<close> under
  an identifier that the store assigned, so its other fields are the patch fields.
\<close>

theorem sync_from_creates_one_record:
  assumes run: "sync_from MemoryCalendar s src config now0 now1 = Inr (s', tr)"
      and flt: "sync_filter config now0 now1 = Inr flt"
      and ix: "index_existing (events MemoryCalendar s (Some flt)) [] []
                 = Inr (existing_ids, duplicates)"
      and wf: "wf_store s"
      and dist: "distinct (map event_id src)"
      and e: "e \<in> set src"
      and new: "event_id e \<notin> fst ` set existing_ids"
      and d: "details config e = Inr d"
      and nomatch_store: "\<forall>r\<in>snd ` set s. \<not> matches r d \<and> metadata r \<noteq> metadata d"
      and nomatch_src:
        "\<forall>g\<in>set src. g \<noteq> e \<longrightarrow> (\<forall>dg. details config g = Inr dg \<longrightarrow> \<not> matches dg d)"
  shows "metadata d = [(''src_calendar'', Some (src_calendar config)), (''src_id'', event_id e)]
       \<and> (\<exists>k. Some k \<notin> fst ` set s
              \<and> filter (\<lambda>r. metadata r = metadata d) (map snd s') = [d\<lparr>event_id := Some k\<rparr>]
              \<and> map_of s' (Some k) = Some (d\<lparr>event_id := Some k\<rparr>))"
proof -
  from e obtain pre post where src: "src = pre @ e # post"
    by (auto dest: split_list)
  from run obtain flt' ids dups remaining s3 tr3 s4 tr4 where
    f: "sync_filter config now0 now1 = Inr flt'"
    and ix': "index_existing (events MemoryCalendar s (Some flt')) [] [] = Inr (ids, dups)"
    and se: "sync_events MemoryCalendar config src (ids, s, []) = Inr (remaining, s3, tr3)"
    and d1: "delete_all MemoryCalendar (map snd remaining) (s3, tr3) = Inr (s4, tr4)"
    and d2: "delete_all MemoryCalendar dups (s4, tr4) = Inr (s', tr)"
    by (rule sync_from_returns)
  from f flt have [simp]: "flt' = flt" by simp
  from ix ix' have [simp]: "ids = existing_ids" "dups = duplicates" by simp_all
  from se obtain ids1 s1 tr1 ids2 s2 tr2 where
    pre: "sync_events MemoryCalendar config pre (existing_ids, s, []) = Inr (ids1, s1, tr1)"
    and step: "sync_event MemoryCalendar config e (ids1, s1, tr1) = Inr (ids2, s2, tr2)"
    and post: "sync_events MemoryCalendar config post (ids2, s2, tr2) = Inr (remaining, s3, tr3)"
    by (auto simp: src sync_events_append split: sum.splits)
  let ?md = "metadata d"
  have md: "?md = [(''src_calendar'', Some (src_calendar config)), (''src_id'', event_id e)]"
    using d by (rule details_metadata)
  have other: "\<not> matches r d \<and> metadata r \<noteq> ?md"
    if "g \<in> set pre \<union> set post" "patched config g k r" for g k r
  proof -
    from dist have "event_id e \<notin> event_id ` (set pre \<union> set post)"
      by (auto simp: src)
    moreover from that(1) have "event_id g \<in> event_id ` (set pre \<union> set post)"
      by (rule imageI)
    ultimately have ne1: "event_id g \<noteq> event_id e" by metis
    then have ne: "event_id g \<noteq> event_id e" "g \<noteq> e" "g \<in> set src"
      using that(1) by (auto simp: src)
    from that(2) obtain dg where dg: "details config g = Inr dg" "r = dg\<lparr>event_id := k\<rparr>"
      by (rule patched_obtain)
    from nomatch_src ne dg have "\<not> matches dg d" by blast
    moreover have "metadata r \<noteq> ?md"
      using patched_metadata[OF that(2)] ne md by simp
    ultimately show ?thesis using dg by (simp add: matches_def)
  qed
  \<comment> \<open>before \<open>e\<close> is processed, no record matches the patch or carries its metadata\<close>
  have wf1: "wf_store s1" using memory_steps(1)[OF pre wf] .
  have keys1: "fst ` set s \<subseteq> fst ` set s1" using memory_steps(2)[OF pre wf] .
  have clean1: "\<not> matches (snd kv) d \<and> metadata (snd kv) \<noteq> ?md" if "kv \<in> set s1" for kv
    using memory_steps(3)[OF pre wf] that nomatch_store other by (metis UnI1 image_eqI)
  have ids1: "set ids1 \<subseteq> set existing_ids" using memory_steps(5)[OF pre wf] .
  \<comment> \<open>the step for \<open>e\<close> adds the record\<close>
  have none: "map_of ids1 (event_id e) = None"
    using new ids1 by (metis image_mono map_of_eq_None_iff subsetD)
  define n where "n = fresh_id s1"
  have added: "ids2 = ids1 \<and> s2 = s1 @ [(Some n, d\<lparr>event_id := Some n\<rparr>)]"
    using step
  proof (cases rule: memory_sync_event_cases)
    case (update d' dest found)
    with none show ?thesis by simp
  next
    case (skip d')
    with d have "has_event MemoryCalendar s1 d = Inr True" by simp
    from memory_has_event_True[OF this] clean1 show ?thesis by auto
  next
    case (add d')
    with d show ?thesis by (simp add: n_def)
  qed
  have fresh: "Some n \<notin> fst ` set s1" unfolding n_def by (rule fresh_id_fresh)
  with keys1 have fresh0: "Some n \<notin> fst ` set s" by blast
  have vals: "snd ` set existing_ids \<union> set duplicates \<subseteq> fst ` set s"
    using memory_index_values[OF ix wf] .
  have wf2: "wf_store s2"
    using added wf1 fresh by (simp add: wf_store_append)
  have in2: "(Some n, d\<lparr>event_id := Some n\<rparr>) \<in> set s2" using added by simp
  have only2: "fst kv = Some n" if "kv \<in> set s2" "metadata (snd kv) = ?md" for kv
    using that added clean1[of kv] by auto
  \<comment> \<open>the rest of the loop\<close>
  have wf3: "wf_store s3" using memory_steps(1)[OF post wf2] .
  have notidx: "Some n \<notin> snd ` set ids2"
    using added ids1 vals fresh0 by blast
  have in3: "(Some n, d\<lparr>event_id := Some n\<rparr>) \<in> set s3"
    using memory_steps(4)[OF post wf2] in2 notidx by force
  have only3: "fst kv = Some n" if "kv \<in> set s3" "metadata (snd kv) = ?md" for kv
    using memory_steps(3)[OF post wf2] that only2 other by (metis UnI2)
  have rem: "set remaining \<subseteq> set existing_ids"
    using memory_steps(5)[OF post wf2] added ids1 by simp
  \<comment> \<open>the clean-up\<close>
  have notdel: "Some n \<notin> set (map snd remaining)" "Some n \<notin> set duplicates"
    using rem vals fresh0 by auto
  have s4: "set s4 = {kv \<in> set s3. fst kv \<notin> set (map snd remaining)}" "wf_store s4"
    using memory_delete_all[OF d1] wf3 by auto
  have s': "set s' = {kv \<in> set s4. fst kv \<notin> set duplicates}" "wf_store s'"
    using memory_delete_all[OF d2] s4(2) by auto
  have in': "(Some n, d\<lparr>event_id := Some n\<rparr>) \<in> set s'"
    using in3 notdel s4(1) s'(1) by simp
  have only': "\<forall>kv\<in>set s'. metadata (snd kv) = ?md \<longrightarrow> fst kv = Some n"
    using only3 s4(1) s'(1) by simp
  have "filter (\<lambda>r. metadata r = ?md) (map snd s') = [d\<lparr>event_id := Some n\<rparr>]"
    using s'(2) in' only' by (intro filter_unique[where ?k0.0 = "Some n"]) (simp_all add: wf_store_def)
  moreover have "map_of s' (Some n) = Some (d\<lparr>event_id := Some n\<rparr>)"
    using s'(2) in' by (simp add: wf_store_def)
  ultimately show ?thesis using md fresh0 by blast
qed

theorem sync_from_creates_one_record_witness:
  "sync_from MemoryCalendar store_with_review [review, standup] work_config new_year new_year
     = Inr ([(Some ''d1'', synced ''d1'' ''r1'' review),
             (Some ''nnn'', synced ''nnn'' ''abc'' standup)],
            [Update_event (synced ''d1'' ''r1'' review), Add_event standup_patch])
   \<and> details work_config standup = Inr standup_patch
   \<and> metadata standup_patch
       = [(''src_calendar'', Some (src_calendar work_config)), (''src_id'', event_id standup)]
   \<and> (\<exists>k. Some k \<notin> fst ` set store_with_review
          \<and> filter (\<lambda>r. metadata r = metadata standup_patch)
               (map snd [(Some ''d1'', synced ''d1'' ''r1'' review),
                         (Some ''nnn'', synced ''nnn'' ''abc'' standup)])
              = [standup_patch\<lparr>event_id := Some k\<rparr>]
          \<and> map_of [(Some ''d1'', synced ''d1'' ''r1'' review),
                     (Some ''nnn'', synced ''nnn'' ''abc'' standup)] (Some k)
              = Some (standup_patch\<lparr>event_id := Some k\<rparr>))"
proof -
  have run: "sync_from MemoryCalendar store_with_review [review, standup] work_config
               new_year new_year
     = Inr ([(Some ''d1'', synced ''d1'' ''r1'' review),
             (Some ''nnn'', synced ''nnn'' ''abc'' standup)],
            [Update_event (synced ''d1'' ''r1'' review), Add_event standup_patch])"
    by code_simp
  have flt: "sync_filter work_config new_year new_year = Inr work_filter"
    by code_simp
  have ix: "index_existing (events MemoryCalendar store_with_review (Some work_filter)) [] []
       = Inr ([(Some ''r1'', Some ''d1'')], [])"
    by code_simp
  have wf: "wf_store store_with_review"
    by (simp add: wf_store_def store_with_review_def synced_def)
  have dist: "distinct (map event_id [review, standup])"
    by (simp add: review_def standup_def)
  have e: "standup \<in> set [review, standup]" by simp
  have new: "event_id standup \<notin> fst ` set [(Some ''r1'', Some ''d1'')]"
    by (simp add: standup_def)
  have d: "details work_config standup = Inr standup_patch"
    by code_simp
  have dr: "details work_config review
      = Inr (review\<lparr>event_id := None,
              metadata := [(''src_calendar'', Some ''work''), (''src_id'', Some ''r1'')]\<rparr>)"
    by code_simp
  have store: "\<forall>r\<in>snd ` set store_with_review.
      \<not> matches r standup_patch \<and> metadata r \<noteq> metadata standup_patch"
    by (simp add: store_with_review_def synced_def review_def standup_patch_def standup_def
        matches_def)
  have others: "\<forall>g\<in>set [review, standup]. g \<noteq> standup \<longrightarrow>
      (\<forall>dg. details work_config g = Inr dg \<longrightarrow> \<not> matches dg standup_patch)"
    using dr by (auto simp: matches_def review_def standup_patch_def standup_def)
  note created = sync_from_creates_one_record[OF run flt ix wf dist e new d store others]
  show ?thesis using run d created by blast
qed

section \<open>Idempotence on the in-memory store\<close>

lemma EventFilter_call_event_id [simp]:
  "EventFilter_call flt (r\<lparr>event_id := k\<rparr>) = EventFilter_call flt r"
  by (simp add: EventFilter_call_def cong: option.case_cong sum.case_cong)

lemma patched_src_id: "patched config f k r \<Longrightarrow> src_id_of r = event_id f"
  by (drule patched_metadata) (simp add: src_id_of_def dict_get_def)

lemma index_existing_no_raise:
  "index_existing (filter_iter p xs) ids dups = Inr res \<Longrightarrow> \<forall>x\<in>set xs. \<exists>b. p x = Inr b"
proof (induction xs arbitrary: ids dups)
  case Nil
  then show ?case by simp
next
  case (Cons x xs)
  then show ?case
    by (cases "p x") (auto split: if_splits)
qed

lemma index_existing_distinct_values:
  assumes "index_existing it ids dups = Inr (ids', dups')"
      and "distinct (map snd ids @ dups @ map event_id (yielded it))"
  shows "distinct (map snd ids' @ dups')"
  using assms
proof (induction it arbitrary: ids dups)
  case (Yield y rest)
  show ?case
  proof (cases "src_id_of y \<in> set (map fst ids)")
    case True
    with Yield.prems have "index_existing rest ids (dups @ [event_id y]) = Inr (ids', dups')"
      by simp
    moreover have "distinct (map snd ids @ (dups @ [event_id y]) @ map event_id (yielded rest))"
      using Yield.prems(2) by auto
    ultimately show ?thesis by (rule Yield.IH)
  next
    case False
    with Yield.prems have
      "index_existing rest (ids @ [(src_id_of y, event_id y)]) dups = Inr (ids', dups')"
      by simp
    moreover have "distinct (map snd (ids @ [(src_id_of y, event_id y)]) @ dups
        @ map event_id (yielded rest))"
      using Yield.prems(2) by auto
    ultimately show ?thesis by (rule Yield.IH)
  qed
qed auto

lemma pending_delete:
  assumes "distinct (map fst ids)" and "distinct (map snd ids @ dups)"
      and "map_of ids k = Some dest"
  shows "pending (AList.delete k ids) dups = pending ids dups - {dest}"
proof -
  from assms(3) have in_ids: "(k, dest) \<in> set ids" by (rule map_of_SomeD)
  have inj1: "inj_on fst (set ids)" using assms(1) by (simp add: distinct_map)
  have inj2: "inj_on snd (set ids)" using assms(2) by (simp add: distinct_map)
  have a: "i = dest \<longleftrightarrow> k' = k" if "(k', i) \<in> set ids" for k' i
  proof
    assume "i = dest"
    then have "snd (k', i) = snd (k, dest)" by simp
    from inj_onD[OF inj2 this that in_ids] show "k' = k" by simp
  next
    assume "k' = k"
    then have "fst (k', i) = fst (k, dest)" by simp
    from inj_onD[OF inj1 this that in_ids] show "i = dest" by simp
  qed
  have "dest \<in> snd ` set ids" using in_ids by force
  then have b: "dest \<notin> set dups" using assms(2) by auto
  have c: "snd ` set (AList.delete k ids) = snd ` set ids - {dest}"
  proof (intro set_eqI iffI)
    fix i assume "i \<in> snd ` set (AList.delete k ids)"
    then obtain k' where "(k', i) \<in> set (AList.delete k ids)" by auto
    then have k': "k' \<noteq> k" "(k', i) \<in> set ids" by (simp_all add: in_delete)
    then have "i \<noteq> dest" using a by blast
    moreover have "i \<in> snd ` set ids" using k'(2) by force
    ultimately show "i \<in> snd ` set ids - {dest}" by simp
  next
    fix i assume "i \<in> snd ` set ids - {dest}"
    then obtain k' where k': "(k', i) \<in> set ids" "i \<noteq> dest" by auto
    with a have "k' \<noteq> k" by blast
    with k' have "(k', i) \<in> set (AList.delete k ids)" by (simp add: in_delete)
    then show "i \<in> snd ` set (AList.delete k ids)" by force
  qed
  show ?thesis unfolding pending_def c using b by blast
qed

lemma distinct_values_delete:
  assumes "distinct (map snd ids @ dups)"
  shows "distinct (map snd (AList.delete k ids) @ dups)"
proof -
  have "distinct (map snd (AList.delete k ids))"
    using assms by (simp add: AList.delete_eq distinct_map_filter)
  moreover have "set (AList.delete k ids) \<subseteq> set ids"
    by (auto simp: AList.delete_eq)
  ultimately show ?thesis using assms by auto
qed

lemma not_in_image_neq:
  assumes "x \<in> A" and "y \<notin> h ` A"
  shows "h x \<noteq> y"
proof
  assume "h x = y"
  then have "y = h x" by simp
  then have "y \<in> h ` A" using assms(1) by (rule image_eqI)
  with assms(2) show False ..
qed

lemma visible_event_id [simp]: "visible flt (r\<lparr>event_id := k\<rparr>) = visible flt r"
  by (simp add: visible_def)

lemma mem_update_iff:
  assumes "distinct (map fst s)"
  shows "kv \<in> set (AList.update k v s) \<longleftrightarrow> kv = (k, v) \<or> (kv \<in> set s \<and> fst kv \<noteq> k)"
proof
  assume "kv \<in> set (AList.update k v s)"
  then have "(fst kv, snd kv) \<in> set (AList.update k v s)" by simp
  from in_update[OF this assms] show "kv = (k, v) \<or> (kv \<in> set s \<and> fst kv \<noteq> k)"
    by (cases kv) auto
next
  assume "kv = (k, v) \<or> (kv \<in> set s \<and> fst kv \<noteq> k)"
  then show "kv \<in> set (AList.update k v s)"
    using update_in[of k v s] update_keeps[of "fst kv" "snd kv" s k v] by auto
qed

lemma distinct_map_yielded:
  "distinct (map h xs) \<Longrightarrow> distinct (map h (yielded (filter_iter p xs)))"
proof (induction xs)
  case Nil
  then show ?case by simp
next
  case (Cons x xs)
  have "h x \<notin> h ` set (yielded (filter_iter p xs))"
    using Cons.prems yielded_filter_iter[of p xs] by auto
  with Cons show ?case by (auto split: sum.splits)
qed

lemma yielded_visible:
  assumes "\<forall>x\<in>set xs. \<exists>b. p x = Inr b" and "x \<in> set xs" and "p x = Inr True"
  shows "x \<in> set (yielded (filter_iter p xs))"
  using assms by (induction xs) auto

lemma index_existing_filter_iter:
  assumes "\<forall>x\<in>set xs. \<exists>b. p x = Inr b"
      and "distinct (map fst ids @ map src_id_of (filter (\<lambda>x. p x = Inr True) xs))"
  shows "index_existing (filter_iter p xs) ids dups
           = Inr (ids @ map (\<lambda>r. (src_id_of r, event_id r)) (filter (\<lambda>x. p x = Inr True) xs),
                  dups)"
  using assms
proof (induction xs arbitrary: ids)
  case Nil
  then show ?case by simp
next
  case (Cons x xs)
  from Cons.prems(1) obtain b where b: "p x = Inr b" by auto
  show ?case
  proof (cases b)
    case True
    with b Cons.prems(2) have new: "src_id_of x \<notin> set (map fst ids)" by auto
    have "index_existing (filter_iter p xs) (ids @ [(src_id_of x, event_id x)]) dups
        = Inr ((ids @ [(src_id_of x, event_id x)])
                 @ map (\<lambda>r. (src_id_of r, event_id r)) (filter (\<lambda>x. p x = Inr True) xs), dups)"
      using Cons.prems b True by (intro Cons.IH) auto
    with b True new show ?thesis by simp
  next
    case False
    have "index_existing (filter_iter p xs) ids dups
        = Inr (ids @ map (\<lambda>r. (src_id_of r, event_id r)) (filter (\<lambda>x. p x = Inr True) xs), dups)"
      using Cons.prems b False by (intro Cons.IH) auto
    with b False show ?thesis by simp
  qed
qed

lemma sync_event_noop:
  assumes wf: "wf_store s"
      and kv: "(k, r) \<in> set s" "map_of ids (event_id f) = Some k" "patched config f k r"
  shows "sync_event MemoryCalendar config f (ids, s, tr)
           = Inr (AList.delete (event_id f) ids, s, tr @ [Update_event r])"
proof -
  from kv(3) obtain d where d: "details config f = Inr d" "r = d\<lparr>event_id := k\<rparr>"
    by (rule patched_obtain)
  from wf kv(1) have look: "map_of s k = Some r" by (simp add: wf_store_def)
  have same: "Event_update r d = r" using d(2) by (simp add: Event_update_eq)
  have key: "event_id r = k" using d(2) by simp
  have "k \<in> fst ` set s" using kv(1) by force
  then have upd: "memory_update_event s r = Inr s"
    using look key by (simp add: memory_update_event_def update_triv)
  show ?thesis
    using d(1) kv(2) look same upd
    by (simp add: sync_event_def MemoryCalendar_def memory_get_event_def)
qed

lemma aware_eq: "aware a = aware b \<longleftrightarrow> (tzinfo a = None) = (tzinfo b = None)"
  by (auto simp: aware_def)

lemma guard_accepts_event_id [simp]:
  "guard_accepts d (r\<lparr>event_id := k\<rparr>) = guard_accepts d r"
  by (simp add: guard_accepts_def matches_def)

lemma any_matches_accepts:
  "any_matches search (filter_iter p xs) = Inr True
     \<Longrightarrow> \<exists>x\<in>set xs. p x = Inr True \<and> matches x search"
proof (induction xs)
  case Nil
  then show ?case by simp
next
  case (Cons x xs)
  then show ?case
    by (cases "p x") (auto split: if_splits)
qed

lemma memory_has_event_accepts:
  assumes "has_event MemoryCalendar s d = Inr True"
  shows "\<exists>kv\<in>set s. guard_accepts d (snd kv)"
  using any_matches_accepts[of d "EventFilter_call (day_filter d)" "map snd s"] assms
  by (auto simp: has_event_def MemoryCalendar_def memory_events_def guard_accepts_def)

lemma memory_has_event_found:
  assumes "\<forall>kv\<in>set s. \<exists>b. EventFilter_call (day_filter d) (snd kv) = Inr b"
      and "kv \<in> set s" and "guard_accepts d (snd kv)"
  shows "has_event MemoryCalendar s d = Inr True"
proof -
  have "\<forall>x\<in>set (map snd s). \<exists>b. EventFilter_call (day_filter d) x = Inr b"
    using assms(1) by simp
  from any_matches_filter_iter[OF this, of d] assms(2,3) show ?thesis
    by (auto simp: has_event_def MemoryCalendar_def memory_events_def guard_accepts_def)
qed

lemma sync_filter_bounds:
  assumes "sync_filter config now0 now1 = Inr flt"
  obtains a b where "filter_start flt = Some a" "filter_end flt = Some b"
  using assms by (auto simp: sync_filter_def split: sum.splits)

lemma same_kind_evaluable:
  assumes "same_kind flt d"
  shows "\<exists>b. EventFilter_call flt d = Inr b"
proof -
  have "\<exists>c. dt_le a (start d) = Inr c" if "filter_start flt = Some a" for a
    using assms that by (intro dt_le_comparable) (simp add: same_kind_def aware_eq)
  then obtain c1 where c1:
    "(case filter_start flt of None \<Rightarrow> Inr True | Some s \<Rightarrow> dt_le s (start d)) = Inr c1"
    by (cases "filter_start flt") auto
  have "\<exists>c. dt_le (event_end d) b = Inr c" if "filter_end flt = Some b" for b
    using assms that by (intro dt_le_comparable) (auto simp: same_kind_def aware_eq)
  then obtain c2 where c2:
    "(case filter_end flt of None \<Rightarrow> Inr True | Some t \<Rightarrow> dt_le (event_end d) t) = Inr c2"
    by (cases "filter_end flt") auto
  show ?thesis by (simp add: EventFilter_call_def c1 c2)
qed

lemma day_filter_evaluable:
  assumes "same_kind flt d"
      and "filter_start flt = Some a" and "filter_end flt = Some b"
      and "EventFilter_call flt r = Inr c"
  shows "\<exists>c'. EventFilter_call (day_filter d) r = Inr c'"
proof -
  have 1: "(tzinfo a = None) = (tzinfo (start r) = None)"
  proof (rule ccontr)
    assume "(tzinfo a = None) \<noteq> (tzinfo (start r) = None)"
    then have "dt_le a (start r) = Inl TypeError" by (rule dt_le_mixed)
    with assms(2,4) show False by (simp add: EventFilter_call_def)
  qed
  have 2: "(tzinfo (event_end r) = None) = (tzinfo b = None)"
  proof (rule ccontr)
    assume "(tzinfo (event_end r) = None) \<noteq> (tzinfo b = None)"
    then have "dt_le (event_end r) b = Inl TypeError" by (rule dt_le_mixed)
    with assms(3,4) show False by (simp add: EventFilter_call_def split: sum.splits)
  qed
  from assms(1-3) have k: "aware a = aware (start d)" "aware b = aware (start d)"
    by (simp_all add: same_kind_def)
  from assms(1) have e: "aware (event_end d) = aware (start d)"
    by (simp add: same_kind_def)
  show ?thesis
    using 1 2 k e by (intro day_filter_call(1)) (auto simp: aware_eq)
qed


lemma reconcilingD:
  assumes "reconciling config flt dups handled todo ids s"
  shows "wf_store s"
    and "pending ids dups \<subseteq> fst ` set s"
    and "distinct (map snd ids @ dups)"
    and "\<forall>kv\<in>set s. \<exists>b. EventFilter_call flt (snd kv) = Inr b"
    and "\<forall>kv\<in>set s. fst kv \<notin> pending ids dups \<and> visible flt (snd kv)
            \<longrightarrow> (\<exists>f\<in>set handled. patched config f (fst kv) (snd kv))"
    and "\<forall>f\<in>set handled. kept config (pending ids dups) s f
            \<or> passed config flt (pending ids dups) ids todo s f"
    and "\<forall>kv\<in>set s. \<forall>kv'\<in>set s.
            fst kv \<notin> pending ids dups \<and> fst kv' \<notin> pending ids dups
            \<and> visible flt (snd kv) \<and> visible flt (snd kv')
            \<and> src_id_of (snd kv) = src_id_of (snd kv') \<longrightarrow> kv = kv'"
    and "distinct (map fst ids)"
  using assms unfolding reconciling_def by - ((elim conjE, assumption)+)

lemma reconcilingI:
  assumes "wf_store s"
    and "pending ids dups \<subseteq> fst ` set s"
    and "distinct (map snd ids @ dups)"
    and "\<forall>kv\<in>set s. \<exists>b. EventFilter_call flt (snd kv) = Inr b"
    and "\<forall>kv\<in>set s. fst kv \<notin> pending ids dups \<and> visible flt (snd kv)
            \<longrightarrow> (\<exists>f\<in>set handled. patched config f (fst kv) (snd kv))"
    and "\<forall>f\<in>set handled. kept config (pending ids dups) s f
            \<or> passed config flt (pending ids dups) ids todo s f"
    and "\<forall>kv\<in>set s. \<forall>kv'\<in>set s.
            fst kv \<notin> pending ids dups \<and> fst kv' \<notin> pending ids dups
            \<and> visible flt (snd kv) \<and> visible flt (snd kv')
            \<and> src_id_of (snd kv) = src_id_of (snd kv') \<longrightarrow> kv = kv'"
    and "distinct (map fst ids)"
  shows "reconciling config flt dups handled todo ids s"
  unfolding reconciling_def by (intro conjI) (fact assms)+

lemma kept_step:
  assumes "kept config P s f"
      and "\<And>kv. kv \<in> set s \<Longrightarrow> fst kv \<notin> P \<Longrightarrow> kv \<in> set s' \<and> fst kv \<notin> P'"
  shows "kept config P' s' f"
proof -
  from assms(1) obtain kv where kv: "kv \<in> set s" "fst kv \<notin> P" "patched config f (fst kv) (snd kv)"
    unfolding kept_def by blast
  from assms(2)[OF kv(1,2)] kv(3) show ?thesis unfolding kept_def by blast
qed

lemma passed_step:
  assumes p: "passed config flt P ids todo s f"
      and keep: "\<And>kv. kv \<in> set s \<Longrightarrow> fst kv \<notin> P \<Longrightarrow> kv \<in> set s' \<and> fst kv \<notin> P'"
      and fresh: "\<And>kv. kv \<in> set s' \<Longrightarrow> fst kv \<notin> P' \<Longrightarrow> visible flt (snd kv)
                    \<Longrightarrow> (kv \<in> set s \<and> fst kv \<notin> P) \<or> src_id_of (snd kv) \<noteq> event_id f"
      and link: "\<And>g dg d. g \<in> set todo \<Longrightarrow> map_of ids (event_id g) \<noteq> None
                    \<Longrightarrow> details config g = Inr dg \<Longrightarrow> guard_accepts d dg
                    \<Longrightarrow> (\<exists>kv\<in>set s'. fst kv \<notin> P' \<and> guard_accepts d (snd kv))
                        \<or> (\<exists>g\<in>set todo'. \<exists>dg. map_of ids' (event_id g) \<noteq> None
                              \<and> details config g = Inr dg \<and> guard_accepts d dg)"
  shows "passed config flt P' ids' todo' s' f"
proof -
  from p have one: "\<forall>kv\<in>set s. fst kv \<notin> P \<and> visible flt (snd kv)
      \<longrightarrow> src_id_of (snd kv) \<noteq> event_id f"
    unfolding passed_def by blast
  from p obtain d where d: "details config f = Inr d"
    and alt: "(\<exists>kv\<in>set s. fst kv \<notin> P \<and> guard_accepts d (snd kv))
              \<or> (\<exists>g\<in>set todo. \<exists>dg. map_of ids (event_id g) \<noteq> None
                    \<and> details config g = Inr dg \<and> guard_accepts d dg)"
    unfolding passed_def by blast
  have first: "\<forall>kv\<in>set s'. fst kv \<notin> P' \<and> visible flt (snd kv)
      \<longrightarrow> src_id_of (snd kv) \<noteq> event_id f"
  proof (intro ballI impI)
    fix x assume x: "x \<in> set s'" "fst x \<notin> P' \<and> visible flt (snd x)"
    then have "(x \<in> set s \<and> fst x \<notin> P) \<or> src_id_of (snd x) \<noteq> event_id f"
      by (intro fresh) simp_all
    with one x(2) show "src_id_of (snd x) \<noteq> event_id f" by blast
  qed
  have second: "(\<exists>kv\<in>set s'. fst kv \<notin> P' \<and> guard_accepts d (snd kv))
                 \<or> (\<exists>g\<in>set todo'. \<exists>dg. map_of ids' (event_id g) \<noteq> None
                       \<and> details config g = Inr dg \<and> guard_accepts d dg)"
    using alt
  proof
    assume "\<exists>kv\<in>set s. fst kv \<notin> P \<and> guard_accepts d (snd kv)"
    then obtain kv where kv: "kv \<in> set s" "fst kv \<notin> P" "guard_accepts d (snd kv)" by blast
    from keep[OF kv(1,2)] kv(3) show ?thesis by blast
  next
    assume "\<exists>g\<in>set todo. \<exists>dg. map_of ids (event_id g) \<noteq> None
                    \<and> details config g = Inr dg \<and> guard_accepts d dg"
    then obtain g dg where "g \<in> set todo" "map_of ids (event_id g) \<noteq> None"
      "details config g = Inr dg" "guard_accepts d dg" by blast
    from link[OF this] show ?thesis .
  qed
  show ?thesis unfolding passed_def using first d second by blast
qed

lemma reconciling_step:
  assumes inv: "reconciling config flt dups handled (f # rest) ids s"
      and step: "sync_event MemoryCalendar config f (ids, s, tr) = Inr (ids', s', tr')"
      and newf: "event_id f \<notin> event_id ` set handled"
      and newr: "event_id f \<notin> event_id ` set rest"
      and kind: "\<forall>d. details config f = Inr d \<longrightarrow> same_kind flt d"
      and guard: "\<forall>d. map_of ids (event_id f) = None \<and> details config f = Inr d
            \<and> has_event MemoryCalendar s d = Inr True \<longrightarrow>
          (\<exists>kv\<in>set s. fst kv \<notin> pending ids dups \<and> guard_accepts d (snd kv))
          \<or> (\<exists>g\<in>set rest. \<exists>dg. map_of ids (event_id g) \<noteq> None
                \<and> details config g = Inr dg \<and> guard_accepts d dg)"
  shows "reconciling config flt dups (handled @ [f]) rest ids' s'"
proof -
  note wf = reconcilingD(1)[OF inv] and pend = reconcilingD(2)[OF inv]
    and dv = reconcilingD(3)[OF inv] and nr = reconcilingD(4)[OF inv, rule_format]
    and i5 = reconcilingD(5)[OF inv, rule_format]
    and i6 = reconcilingD(6)[OF inv, rule_format]
    and i7 = reconcilingD(7)[OF inv, rule_format]
    and dk = reconcilingD(8)[OF inv]
  from wf have dks: "distinct (map fst s)" by (simp add: wf_store_def)
  have old_src: "src_id_of (snd kv) \<noteq> event_id f"
    if "kv \<in> set s" "fst kv \<notin> pending ids dups" "visible flt (snd kv)" for kv
  proof -
    from i5[OF that(1)] that(2,3) obtain g where
      g: "g \<in> set handled" "patched config g (fst kv) (snd kv)" by blast
    from g(1) newf have "event_id g \<noteq> event_id f" by (rule not_in_image_neq)
    with patched_src_id[OF g(2)] show ?thesis by simp
  qed
  have other: "event_id g \<noteq> event_id f" if "g \<in> set handled" for g
    using that newf by (rule not_in_image_neq)
  have later: "g \<in> set rest" if "g \<in> set (f # rest)" "event_id g \<noteq> event_id f" for g
    using that by auto
  from step show ?thesis
  proof (cases rule: memory_sync_event_cases)
    case (update d dest found)
    define r' where "r' = d\<lparr>event_id := dest\<rparr>"
    from update(3) have "(dest, found) \<in> set s" by (rule map_of_SomeD)
    with wf have found: "event_id found = dest" by (force simp: wf_store_def)
    have s': "s' = AList.update dest r' s" using update(6) found by (simp add: r'_def)
    have ids': "ids' = AList.delete (event_id f) ids" by (rule update(5))
    have P': "pending ids' dups = pending ids dups - {dest}"
      unfolding ids' by (rule pending_delete[OF dk dv update(2)])
    from update(2) have "(event_id f, dest) \<in> set ids" by (rule map_of_SomeD)
    then have "dest \<in> snd ` set ids" by force
    then have dest_in: "dest \<in> pending ids dups" by (simp add: pending_def)
    have mem: "kv \<in> set s' \<longleftrightarrow> kv = (dest, r') \<or> (kv \<in> set s \<and> fst kv \<noteq> dest)" for kv
      unfolding s' by (rule mem_update_iff[OF dks])
    have pat: "patched config f dest r'" by (simp add: patched_def update(1) r'_def)
    have new_src: "src_id_of r' = event_id f" using pat by (rule patched_src_id)
    from kind update(1) have "same_kind flt d" by blast
    then obtain b where "EventFilter_call flt d = Inr b"
      using same_kind_evaluable by blast
    then have evr: "EventFilter_call flt r' = Inr b" by (simp add: r'_def)
    have oldP: "fst kv \<notin> pending ids dups" if "fst kv \<notin> pending ids' dups" "fst kv \<noteq> dest" for kv
      using that P' by blast
    have keep: "kv \<in> set s' \<and> fst kv \<notin> pending ids' dups"
      if "kv \<in> set s" "fst kv \<notin> pending ids dups" for kv
    proof -
      from that(2) dest_in have "fst kv \<noteq> dest" by blast
      with that(1) mem have "kv \<in> set s'" by blast
      moreover from that(2) P' have "fst kv \<notin> pending ids' dups" by blast
      ultimately show ?thesis by simp
    qed
    have new_in: "(dest, r') \<in> set s'" using mem by blast
    have new_np: "fst (dest, r') \<notin> pending ids' dups" using P' by simp
    show ?thesis
    proof (rule reconcilingI)
      show "wf_store s'" unfolding s' by (rule wf_store_update[OF wf]) (simp add: r'_def)
      show "pending ids' dups \<subseteq> fst ` set s'"
        using pend P' by (auto simp: s' dom_update)
      show "distinct (map snd ids' @ dups)"
        unfolding ids' by (rule distinct_values_delete[OF dv])
      show "\<forall>kv\<in>set s'. \<exists>b. EventFilter_call flt (snd kv) = Inr b"
      proof
        fix kv assume "kv \<in> set s'"
        with mem consider "kv = (dest, r')" | "kv \<in> set s" by blast
        then show "\<exists>b. EventFilter_call flt (snd kv) = Inr b"
        proof cases
          case 1
          with evr show ?thesis by simp
        next
          case 2
          then show ?thesis by (rule nr)
        qed
      qed
      show "\<forall>kv\<in>set s'. fst kv \<notin> pending ids' dups \<and> visible flt (snd kv)
            \<longrightarrow> (\<exists>g\<in>set (handled @ [f]). patched config g (fst kv) (snd kv))"
      proof (intro ballI impI)
        fix kv assume kv: "kv \<in> set s'"
          and h: "fst kv \<notin> pending ids' dups \<and> visible flt (snd kv)"
        from kv mem consider "kv = (dest, r')" | "kv \<in> set s" "fst kv \<noteq> dest" by blast
        then show "\<exists>g\<in>set (handled @ [f]). patched config g (fst kv) (snd kv)"
        proof cases
          case 1
          with pat show ?thesis by simp
        next
          case 2
          from i5[OF 2(1)] oldP[OF _ 2(2)] h show ?thesis by auto
        qed
      qed
      show "\<forall>g\<in>set (handled @ [f]). kept config (pending ids' dups) s' g
            \<or> passed config flt (pending ids' dups) ids' rest s' g"
      proof
        fix g assume "g \<in> set (handled @ [f])"
        then consider "g = f" | "g \<in> set handled" by auto
        then show "kept config (pending ids' dups) s' g
            \<or> passed config flt (pending ids' dups) ids' rest s' g"
        proof cases
          case 1
          have "kept config (pending ids' dups) s' f"
            unfolding kept_def using new_in new_np pat by (intro bexI[of _ "(dest, r')"]) simp_all
          with 1 show ?thesis by simp
        next
          case 2
          from i6[OF 2] show ?thesis
          proof
            assume "kept config (pending ids dups) s g"
            then have "kept config (pending ids' dups) s' g"
              by (rule kept_step) (rule keep)
            then show ?thesis ..
          next
            assume p: "passed config flt (pending ids dups) ids (f # rest) s g"
            have "passed config flt (pending ids' dups) ids' rest s' g"
              using p
            proof (rule passed_step)
              show "kv \<in> set s' \<and> fst kv \<notin> pending ids' dups"
                if "kv \<in> set s" "fst kv \<notin> pending ids dups" for kv
                using that by (rule keep)
              show "(kv \<in> set s \<and> fst kv \<notin> pending ids dups)
                    \<or> src_id_of (snd kv) \<noteq> event_id g"
                if "kv \<in> set s'" "fst kv \<notin> pending ids' dups" "visible flt (snd kv)" for kv
              proof -
                from that(1) mem consider "kv = (dest, r')" | "kv \<in> set s" "fst kv \<noteq> dest"
                  by blast
                then show ?thesis
                proof cases
                  case 1
                  with new_src other[OF 2] show ?thesis by simp
                next
                  case 2
                  with oldP[OF that(2)] show ?thesis by simp
                qed
              qed
              show "(\<exists>kv\<in>set s'. fst kv \<notin> pending ids' dups \<and> guard_accepts d' (snd kv))
                    \<or> (\<exists>g\<in>set rest. \<exists>dg. map_of ids' (event_id g) \<noteq> None
                          \<and> details config g = Inr dg \<and> guard_accepts d' dg)"
                if h: "h \<in> set (f # rest)"
                  and look: "map_of ids (event_id h) \<noteq> None"
                  and dh: "details config h = Inr dh" "guard_accepts d' dh"
                for h dh d'
              proof (cases "event_id h = event_id f")
                case True
                have "h = f"
                proof (rule ccontr)
                  assume "h \<noteq> f"
                  with h have "h \<in> set rest" by simp
                  from this newr have "event_id h \<noteq> event_id f" by (rule not_in_image_neq)
                  with True show False by simp
                qed
                with dh(1) update(1) have "dh = d" by simp
                with dh(2) have "guard_accepts d' r'" by (simp add: r'_def)
                with new_in new_np have
                  "\<exists>kv\<in>set s'. fst kv \<notin> pending ids' dups \<and> guard_accepts d' (snd kv)"
                  by (intro bexI[of _ "(dest, r')"]) simp_all
                then show ?thesis ..
              next
                case False
                with h have hr: "h \<in> set rest" by (rule later)
                from False have "map_of ids' (event_id h) \<noteq> None"
                  unfolding ids' using look by simp
                with hr dh show ?thesis by blast
              qed
            qed
            then show ?thesis ..
          qed
        qed
      qed
      show "\<forall>kv\<in>set s'. \<forall>kv'\<in>set s'.
            fst kv \<notin> pending ids' dups \<and> fst kv' \<notin> pending ids' dups
            \<and> visible flt (snd kv) \<and> visible flt (snd kv')
            \<and> src_id_of (snd kv) = src_id_of (snd kv') \<longrightarrow> kv = kv'"
      proof (intro ballI impI)
        fix kv kv' assume kv: "kv \<in> set s'" and kv': "kv' \<in> set s'"
          and h: "fst kv \<notin> pending ids' dups \<and> fst kv' \<notin> pending ids' dups
            \<and> visible flt (snd kv) \<and> visible flt (snd kv')
            \<and> src_id_of (snd kv) = src_id_of (snd kv')"
        from kv mem consider (n) "kv = (dest, r')" | (o) "kv \<in> set s" "fst kv \<noteq> dest" by blast
        then show "kv = kv'"
        proof cases
          case n
          from kv' mem consider (n') "kv' = (dest, r')" | (o') "kv' \<in> set s" "fst kv' \<noteq> dest"
            by blast
          then show ?thesis
          proof cases
            case n'
            with n show ?thesis by simp
          next
            case o'
            from old_src[OF o'(1) oldP[OF _ o'(2)]] h n new_src show ?thesis by simp
          qed
        next
          case o
          from kv' mem consider (n') "kv' = (dest, r')" | (o') "kv' \<in> set s" "fst kv' \<noteq> dest"
            by blast
          then show ?thesis
          proof cases
            case n'
            from old_src[OF o(1) oldP[OF _ o(2)]] h n' new_src show ?thesis by simp
          next
            case o'
            from i7[OF o(1) o'(1)] oldP[OF _ o(2)] oldP[OF _ o'(2)] h show ?thesis by blast
          qed
        qed
      qed
      show "distinct (map fst ids')"
        unfolding ids' using dk by (rule distinct_delete)
    qed
  next
    case (skip d)
    have s': "s' = s" and ids': "ids' = ids" by (rule skip(5), rule skip(4))
    have notf: "h \<in> set rest"
      if "h \<in> set (f # rest)" "map_of ids (event_id h) \<noteq> None" for h
    proof -
      from that(2) skip(2) have "event_id h \<noteq> event_id f" by auto
      with that(1) show ?thesis by (rule later)
    qed
    have pf: "passed config flt (pending ids dups) ids rest s f"
    proof -
      from guard skip(1,2,3) have
        "(\<exists>kv\<in>set s. fst kv \<notin> pending ids dups \<and> guard_accepts d (snd kv))
         \<or> (\<exists>g\<in>set rest. \<exists>dg. map_of ids (event_id g) \<noteq> None
               \<and> details config g = Inr dg \<and> guard_accepts d dg)"
        by blast
      with old_src skip(1) show ?thesis unfolding passed_def by blast
    qed
    show ?thesis unfolding s' ids'
    proof (rule reconcilingI)
      show "wf_store s" by (rule wf)
      show "pending ids dups \<subseteq> fst ` set s" by (rule pend)
      show "distinct (map snd ids @ dups)" by (rule dv)
      show "\<forall>kv\<in>set s. \<exists>b. EventFilter_call flt (snd kv) = Inr b" using nr by blast
      show "\<forall>kv\<in>set s. fst kv \<notin> pending ids dups \<and> visible flt (snd kv)
            \<longrightarrow> (\<exists>g\<in>set (handled @ [f]). patched config g (fst kv) (snd kv))"
      proof (intro ballI impI)
        fix kv assume "kv \<in> set s" "fst kv \<notin> pending ids dups \<and> visible flt (snd kv)"
        with i5[of kv] show "\<exists>g\<in>set (handled @ [f]). patched config g (fst kv) (snd kv)"
          by auto
      qed
      show "\<forall>g\<in>set (handled @ [f]). kept config (pending ids dups) s g
            \<or> passed config flt (pending ids dups) ids rest s g"
      proof
        fix g assume "g \<in> set (handled @ [f])"
        then consider "g = f" | "g \<in> set handled" by auto
        then show "kept config (pending ids dups) s g
            \<or> passed config flt (pending ids dups) ids rest s g"
        proof cases
          case 1
          with pf show ?thesis by simp
        next
          case 2
          from i6[OF 2] show ?thesis
          proof
            assume "kept config (pending ids dups) s g"
            then show ?thesis ..
          next
            assume p: "passed config flt (pending ids dups) ids (f # rest) s g"
            have "passed config flt (pending ids dups) ids rest s g"
              using p
            proof (rule passed_step)
              show "kv \<in> set s \<and> fst kv \<notin> pending ids dups"
                if "kv \<in> set s" "fst kv \<notin> pending ids dups" for kv
                using that by simp
              show "(kv \<in> set s \<and> fst kv \<notin> pending ids dups)
                    \<or> src_id_of (snd kv) \<noteq> event_id g"
                if "kv \<in> set s" "fst kv \<notin> pending ids dups" "visible flt (snd kv)" for kv
                using that by simp
              show "(\<exists>kv\<in>set s. fst kv \<notin> pending ids dups \<and> guard_accepts d' (snd kv))
                    \<or> (\<exists>g\<in>set rest. \<exists>dg. map_of ids (event_id g) \<noteq> None
                          \<and> details config g = Inr dg \<and> guard_accepts d' dg)"
                if h: "h \<in> set (f # rest)"
                  and look: "map_of ids (event_id h) \<noteq> None"
                  and dh: "details config h = Inr dh" "guard_accepts d' dh"
                for h dh d'
                using notf[OF h look] look dh by blast
            qed
            then show ?thesis ..
          qed
        qed
      qed
      show "\<forall>kv\<in>set s. \<forall>kv'\<in>set s.
            fst kv \<notin> pending ids dups \<and> fst kv' \<notin> pending ids dups
            \<and> visible flt (snd kv) \<and> visible flt (snd kv')
            \<and> src_id_of (snd kv) = src_id_of (snd kv') \<longrightarrow> kv = kv'"
        using i7 by blast
      show "distinct (map fst ids)" by (rule dk)
    qed
  next
    case (add d)
    define n where "n = fresh_id s"
    define r' where "r' = d\<lparr>event_id := Some n\<rparr>"
    have s': "s' = s @ [(Some n, r')]" using add(5) by (simp add: n_def r'_def)
    have ids': "ids' = ids" by (rule add(4))
    have fresh: "Some n \<notin> fst ` set s" unfolding n_def by (rule fresh_id_fresh)
    with pend have nP: "Some n \<notin> pending ids dups" by blast
    have pat: "patched config f (Some n) r'" by (simp add: patched_def add(1) r'_def)
    have new_src: "src_id_of r' = event_id f" using pat by (rule patched_src_id)
    from kind add(1) have "same_kind flt d" by blast
    then obtain b where "EventFilter_call flt d = Inr b"
      using same_kind_evaluable by blast
    then have evr: "EventFilter_call flt r' = Inr b" by (simp add: r'_def)
    have mem: "kv \<in> set s' \<longleftrightarrow> kv = (Some n, r') \<or> kv \<in> set s" for kv
      unfolding s' by auto
    have notf: "h \<in> set rest"
      if "h \<in> set (f # rest)" "map_of ids (event_id h) \<noteq> None" for h
    proof -
      from that(2) add(2) have "event_id h \<noteq> event_id f" by auto
      with that(1) show ?thesis by (rule later)
    qed
    show ?thesis unfolding ids'
    proof (rule reconcilingI)
      show "wf_store s'" unfolding s' by (rule wf_store_append[OF wf fresh]) (simp add: r'_def)
      show "pending ids dups \<subseteq> fst ` set s'" using pend by (auto simp: s')
      show "distinct (map snd ids @ dups)" by (rule dv)
      show "\<forall>kv\<in>set s'. \<exists>b. EventFilter_call flt (snd kv) = Inr b"
      proof
        fix kv assume "kv \<in> set s'"
        with mem consider "kv = (Some n, r')" | "kv \<in> set s" by blast
        then show "\<exists>b. EventFilter_call flt (snd kv) = Inr b"
        proof cases
          case 1
          with evr show ?thesis by simp
        next
          case 2
          then show ?thesis by (rule nr)
        qed
      qed
      show "\<forall>kv\<in>set s'. fst kv \<notin> pending ids dups \<and> visible flt (snd kv)
            \<longrightarrow> (\<exists>g\<in>set (handled @ [f]). patched config g (fst kv) (snd kv))"
      proof (intro ballI impI)
        fix kv assume kv: "kv \<in> set s'"
          and h: "fst kv \<notin> pending ids dups \<and> visible flt (snd kv)"
        from kv mem consider "kv = (Some n, r')" | "kv \<in> set s" by blast
        then show "\<exists>g\<in>set (handled @ [f]). patched config g (fst kv) (snd kv)"
        proof cases
          case 1
          with pat show ?thesis by simp
        next
          case 2
          from i5[OF 2] h show ?thesis by auto
        qed
      qed
      show "\<forall>g\<in>set (handled @ [f]). kept config (pending ids dups) s' g
            \<or> passed config flt (pending ids dups) ids rest s' g"
      proof
        fix g assume "g \<in> set (handled @ [f])"
        then consider "g = f" | "g \<in> set handled" by auto
        then show "kept config (pending ids dups) s' g
            \<or> passed config flt (pending ids dups) ids rest s' g"
        proof cases
          case 1
          have "(Some n, r') \<in> set s'" using mem by blast
          then have "kept config (pending ids dups) s' f"
            unfolding kept_def using nP pat by (intro bexI[of _ "(Some n, r')"]) simp_all
          with 1 show ?thesis by simp
        next
          case 2
          from i6[OF 2] show ?thesis
          proof
            assume "kept config (pending ids dups) s g"
            then have "kept config (pending ids dups) s' g"
              by (rule kept_step) (simp add: mem)
            then show ?thesis ..
          next
            assume p: "passed config flt (pending ids dups) ids (f # rest) s g"
            have "passed config flt (pending ids dups) ids rest s' g"
              using p
            proof (rule passed_step)
              show "kv \<in> set s' \<and> fst kv \<notin> pending ids dups"
                if "kv \<in> set s" "fst kv \<notin> pending ids dups" for kv
                using that by (simp add: mem)
              show "(kv \<in> set s \<and> fst kv \<notin> pending ids dups)
                    \<or> src_id_of (snd kv) \<noteq> event_id g"
                if "kv \<in> set s'" "fst kv \<notin> pending ids dups" "visible flt (snd kv)" for kv
              proof -
                from that(1) mem consider "kv = (Some n, r')" | "kv \<in> set s" by blast
                then show ?thesis
                proof cases
                  case 1
                  with new_src other[OF 2] show ?thesis by simp
                next
                  case 2
                  with that(2) show ?thesis by simp
                qed
              qed
              show "(\<exists>kv\<in>set s'. fst kv \<notin> pending ids dups \<and> guard_accepts d' (snd kv))
                    \<or> (\<exists>g\<in>set rest. \<exists>dg. map_of ids (event_id g) \<noteq> None
                          \<and> details config g = Inr dg \<and> guard_accepts d' dg)"
                if h: "h \<in> set (f # rest)"
                  and look: "map_of ids (event_id h) \<noteq> None"
                  and dh: "details config h = Inr dh" "guard_accepts d' dh"
                for h dh d'
                using notf[OF h look] look dh by blast
            qed
            then show ?thesis ..
          qed
        qed
      qed
      show "\<forall>kv\<in>set s'. \<forall>kv'\<in>set s'.
            fst kv \<notin> pending ids dups \<and> fst kv' \<notin> pending ids dups
            \<and> visible flt (snd kv) \<and> visible flt (snd kv')
            \<and> src_id_of (snd kv) = src_id_of (snd kv') \<longrightarrow> kv = kv'"
      proof (intro ballI impI)
        fix kv kv' assume kv: "kv \<in> set s'" and kv': "kv' \<in> set s'"
          and h: "fst kv \<notin> pending ids dups \<and> fst kv' \<notin> pending ids dups
            \<and> visible flt (snd kv) \<and> visible flt (snd kv')
            \<and> src_id_of (snd kv) = src_id_of (snd kv')"
        from kv mem consider (n) "kv = (Some n, r')" | (o) "kv \<in> set s" by blast
        then show "kv = kv'"
        proof cases
          case n
          from kv' mem consider (n') "kv' = (Some n, r')" | (o') "kv' \<in> set s" by blast
          then show ?thesis
          proof cases
            case n'
            with n show ?thesis by simp
          next
            case o'
            from old_src[OF o'] h n new_src show ?thesis by simp
          qed
        next
          case o
          from kv' mem consider (n') "kv' = (Some n, r')" | (o') "kv' \<in> set s" by blast
          then show ?thesis
          proof cases
            case n'
            from old_src[OF o] h n' new_src show ?thesis by simp
          next
            case o'
            from i7[OF o o'] h show ?thesis by blast
          qed
        qed
      qed
      show "distinct (map fst ids)" by (rule dk)
    qed
  qed
qed


lemma reconciling_steps:
  assumes "reconciling config flt dups handled fs ids s"
      and "sync_events MemoryCalendar config fs (ids, s, tr) = Inr (ids', s', tr')"
      and "sync_events MemoryCalendar config handled (ids0, s0, []) = Inr (ids, s, tr)"
      and "distinct (map event_id (handled @ fs))"
      and "\<forall>f\<in>set fs. \<forall>d. details config f = Inr d \<longrightarrow> same_kind flt d"
      and "\<forall>pre f post ids s tr d.
             handled @ fs = pre @ f # post
             \<and> sync_events MemoryCalendar config pre (ids0, s0, []) = Inr (ids, s, tr)
             \<and> map_of ids (event_id f) = None \<and> details config f = Inr d
             \<and> has_event MemoryCalendar s d = Inr True
             \<longrightarrow> (\<exists>kv\<in>set s. fst kv \<notin> pending ids dups \<and> guard_accepts d (snd kv))
                 \<or> (\<exists>g\<in>set post. \<exists>dg. map_of ids (event_id g) \<noteq> None
                       \<and> details config g = Inr dg \<and> guard_accepts d dg)"
  shows "reconciling config flt dups (handled @ fs) [] ids' s'"
  using assms
proof (induction fs arbitrary: handled ids s tr)
  case Nil
  then show ?case by simp
next
  case (Cons f rest)
  from Cons.prems(2) obtain ids1 s1 tr1 where
    a: "sync_event MemoryCalendar config f (ids, s, tr) = Inr (ids1, s1, tr1)"
    and b: "sync_events MemoryCalendar config rest (ids1, s1, tr1) = Inr (ids', s', tr')"
    by (auto split: sum.splits)
  from Cons.prems(4) have newf: "event_id f \<notin> event_id ` set handled"
    and newr: "event_id f \<notin> event_id ` set rest" by auto
  have kind: "\<forall>d. details config f = Inr d \<longrightarrow> same_kind flt d"
    using Cons.prems(5) by simp
  have guard: "\<forall>d. map_of ids (event_id f) = None \<and> details config f = Inr d
            \<and> has_event MemoryCalendar s d = Inr True \<longrightarrow>
          (\<exists>kv\<in>set s. fst kv \<notin> pending ids dups \<and> guard_accepts d (snd kv))
          \<or> (\<exists>g\<in>set rest. \<exists>dg. map_of ids (event_id g) \<noteq> None
                \<and> details config g = Inr dg \<and> guard_accepts d dg)"
  proof (intro allI impI)
    fix d assume h: "map_of ids (event_id f) = None \<and> details config f = Inr d
            \<and> has_event MemoryCalendar s d = Inr True"
    have pre: "handled @ f # rest = handled @ f # rest
        \<and> sync_events MemoryCalendar config handled (ids0, s0, []) = Inr (ids, s, tr)
        \<and> map_of ids (event_id f) = None \<and> details config f = Inr d
        \<and> has_event MemoryCalendar s d = Inr True"
      using Cons.prems(3) h by simp
    from Cons.prems(6)[rule_format, OF pre]
    show "(\<exists>kv\<in>set s. fst kv \<notin> pending ids dups \<and> guard_accepts d (snd kv))
          \<or> (\<exists>g\<in>set rest. \<exists>dg. map_of ids (event_id g) \<noteq> None
                \<and> details config g = Inr dg \<and> guard_accepts d dg)" .
  qed
  have inv1: "reconciling config flt dups (handled @ [f]) rest ids1 s1"
    by (rule reconciling_step[OF Cons.prems(1) a newf newr kind guard])
  have prefix: "sync_events MemoryCalendar config (handled @ [f]) (ids0, s0, [])
      = Inr (ids1, s1, tr1)"
    by (simp add: sync_events_append Cons.prems(3) a)
  have "reconciling config flt dups ((handled @ [f]) @ rest) [] ids' s'"
  proof (rule Cons.IH[OF inv1 b prefix])
    show "distinct (map event_id ((handled @ [f]) @ rest))" using Cons.prems(4) by simp
    show "\<forall>f\<in>set rest. \<forall>d. details config f = Inr d \<longrightarrow> same_kind flt d"
      using Cons.prems(5) by simp
    show "\<forall>pre fa post ids s tr d.
             (handled @ [f]) @ rest = pre @ fa # post
             \<and> sync_events MemoryCalendar config pre (ids0, s0, []) = Inr (ids, s, tr)
             \<and> map_of ids (event_id fa) = None \<and> details config fa = Inr d
             \<and> has_event MemoryCalendar s d = Inr True
             \<longrightarrow> (\<exists>kv\<in>set s. fst kv \<notin> pending ids dups \<and> guard_accepts d (snd kv))
                 \<or> (\<exists>g\<in>set post. \<exists>dg. map_of ids (event_id g) \<noteq> None
                       \<and> details config g = Inr dg \<and> guard_accepts d dg)"
      using Cons.prems(6) by simp
  qed
  then show ?case by simp
qed

lemma reconciling_initial:
  assumes ix: "index_existing (events MemoryCalendar s0 (Some flt)) [] [] = Inr (ids0, dups)"
      and wf: "wf_store s0"
  shows "reconciling config flt dups [] src ids0 s0"
proof -
  let ?p = "EventFilter_call flt"
  have ev: "events MemoryCalendar s0 (Some flt) = filter_iter ?p (map snd s0)"
    by (simp add: MemoryCalendar_def memory_events_def)
  have nr: "\<forall>x\<in>set (map snd s0). \<exists>b. ?p x = Inr b"
    using ix unfolding ev by (rule index_existing_no_raise)
  have keys: "map event_id (map snd s0) = map fst s0"
    using wf by (simp add: wf_store_def)
  have "distinct (map event_id (map snd s0))"
    unfolding keys using wf by (simp add: wf_store_def)
  then have "distinct (map event_id (yielded (filter_iter ?p (map snd s0))))"
    by (rule distinct_map_yielded)
  then have dv: "distinct (map snd ids0 @ dups)"
    using index_existing_distinct_values[OF ix] by (simp add: ev)
  have pend: "fst kv \<in> pending ids0 dups" if "kv \<in> set s0" "visible flt (snd kv)" for kv
  proof -
    from that have "snd kv \<in> set (yielded (filter_iter ?p (map snd s0)))"
      by (intro yielded_visible[OF nr]) (simp_all add: visible_def)
    with index_existing_covers[OF ix] have
      "(src_id_of (snd kv), event_id (snd kv)) \<in> set ids0 \<or> event_id (snd kv) \<in> set dups"
      by (simp add: ev)
    moreover have "event_id (snd kv) = fst kv" using wf that(1) by (simp add: wf_store_def)
    ultimately show ?thesis by (force simp: pending_def)
  qed
  show ?thesis
  proof (rule reconcilingI)
    show "wf_store s0" by (rule wf)
    show "pending ids0 dups \<subseteq> fst ` set s0"
      using memory_index_values[OF ix wf] by (simp add: pending_def)
    show "distinct (map snd ids0 @ dups)" by (rule dv)
    show "\<forall>kv\<in>set s0. \<exists>b. ?p (snd kv) = Inr b" using nr by simp
    show "\<forall>kv\<in>set s0. fst kv \<notin> pending ids0 dups \<and> visible flt (snd kv)
            \<longrightarrow> (\<exists>f\<in>set []. patched config f (fst kv) (snd kv))"
      using pend by blast
    show "\<forall>f\<in>set []. kept config (pending ids0 dups) s0 f
            \<or> passed config flt (pending ids0 dups) ids0 src s0 f" by simp
    show "\<forall>kv\<in>set s0. \<forall>kv'\<in>set s0.
            fst kv \<notin> pending ids0 dups \<and> fst kv' \<notin> pending ids0 dups
            \<and> visible flt (snd kv) \<and> visible flt (snd kv')
            \<and> src_id_of (snd kv) = src_id_of (snd kv') \<longrightarrow> kv = kv'"
      using pend by blast
    show "distinct (map fst ids0)"
      using index_existing_distinct[OF ix] by simp
  qed
qed

lemma same_event_id:
  assumes "distinct (map event_id src)" and "h \<in> set src" and "g \<in> set src"
      and "event_id h = event_id g"
  shows "h = g"
proof -
  from assms(1) have "inj_on event_id (set src)" by (simp add: distinct_map)
  from inj_onD[OF this assms(4,2,3)] show ?thesis .
qed

lemma first_run_settled:
  assumes run: "sync_from MemoryCalendar s0 src config now0 now1 = Inr (s1, tr1)"
      and flt: "sync_filter config now0 now1 = Inr flt"
      and ix: "index_existing (events MemoryCalendar s0 (Some flt)) [] [] = Inr (ids0, dups)"
      and wf: "wf_store s0"
      and dist: "distinct (map event_id src)"
      and kind: "\<forall>f\<in>set src. \<forall>d. details config f = Inr d \<longrightarrow> same_kind flt d"
      and day: "\<forall>f\<in>set src. \<forall>d. details config f = Inr d
                  \<longrightarrow> visible flt d \<or> guard_accepts d d"
      and guard: "\<forall>pre f post ids s tr d.
             src = pre @ f # post
             \<and> sync_events MemoryCalendar config pre (ids0, s0, []) = Inr (ids, s, tr)
             \<and> map_of ids (event_id f) = None \<and> details config f = Inr d
             \<and> has_event MemoryCalendar s d = Inr True
             \<longrightarrow> (\<exists>kv\<in>set s. fst kv \<notin> pending ids dups \<and> guard_accepts d (snd kv))
                 \<or> (\<exists>g\<in>set post. \<exists>dg. map_of ids (event_id g) \<noteq> None
                       \<and> details config g = Inr dg \<and> guard_accepts d dg)"
  shows "settled config flt src s1"
proof -
  from run obtain flt' ids dups' remaining s3 tr3 s4 tr4 where
    f: "sync_filter config now0 now1 = Inr flt'"
    and ix': "index_existing (events MemoryCalendar s0 (Some flt')) [] [] = Inr (ids, dups')"
    and se: "sync_events MemoryCalendar config src (ids, s0, []) = Inr (remaining, s3, tr3)"
    and d1: "delete_all MemoryCalendar (map snd remaining) (s3, tr3) = Inr (s4, tr4)"
    and d2: "delete_all MemoryCalendar dups' (s4, tr4) = Inr (s1, tr1)"
    by (rule sync_from_returns)
  from f flt have [simp]: "flt' = flt" by simp
  from ix ix' have [simp]: "ids = ids0" "dups' = dups" by simp_all
  have inv0: "reconciling config flt dups [] src ids0 s0"
    by (rule reconciling_initial[OF ix wf])
  have start: "sync_events MemoryCalendar config [] (ids0, s0, []) = Inr (ids0, s0, [])"
    by simp
  have "reconciling config flt dups ([] @ src) [] remaining s3"
    using se dist kind guard by (intro reconciling_steps[OF inv0 _ start]) simp_all
  then have inv: "reconciling config flt dups src [] remaining s3" by simp
  note wf3 = reconcilingD(1)[OF inv] and nr = reconcilingD(4)[OF inv, rule_format]
    and i5 = reconcilingD(5)[OF inv, rule_format]
    and i6 = reconcilingD(6)[OF inv, rule_format]
    and i7 = reconcilingD(7)[OF inv, rule_format]
  have s4: "set s4 = {kv \<in> set s3. fst kv \<notin> set (map snd remaining)}" "wf_store s4"
    using memory_delete_all[OF d1] wf3 by auto
  have s1': "set s1 = {kv \<in> set s4. fst kv \<notin> set dups}" "wf_store s1"
    using memory_delete_all[OF d2] s4(2) by auto
  have mem: "kv \<in> set s1 \<longleftrightarrow> kv \<in> set s3 \<and> fst kv \<notin> pending remaining dups" for kv
    using s4(1) s1'(1) by (auto simp: pending_def)
  show ?thesis unfolding settled_def
  proof (intro conjI)
    show "wf_store s1" by (rule s1'(2))
    show "\<forall>kv\<in>set s1. \<exists>b. EventFilter_call flt (snd kv) = Inr b"
      using nr mem by blast
    show "\<forall>kv\<in>set s1. visible flt (snd kv)
            \<longrightarrow> (\<exists>f\<in>set src. patched config f (fst kv) (snd kv))"
      using i5 mem by blast
    show "\<forall>f\<in>set src.
            (\<exists>kv\<in>set s1. visible flt (snd kv) \<and> patched config f (fst kv) (snd kv))
            \<or> ((\<forall>kv\<in>set s1. visible flt (snd kv) \<longrightarrow> src_id_of (snd kv) \<noteq> event_id f)
                \<and> (\<exists>d. details config f = Inr d
                      \<and> (\<exists>kv\<in>set s1. guard_accepts d (snd kv))))"
    proof
      fix g assume g: "g \<in> set src"
      from i6[OF g] show
        "(\<exists>kv\<in>set s1. visible flt (snd kv) \<and> patched config g (fst kv) (snd kv))
            \<or> ((\<forall>kv\<in>set s1. visible flt (snd kv) \<longrightarrow> src_id_of (snd kv) \<noteq> event_id g)
                \<and> (\<exists>d. details config g = Inr d
                      \<and> (\<exists>kv\<in>set s1. guard_accepts d (snd kv))))"
      proof
        assume "kept config (pending remaining dups) s3 g"
        then obtain kv where kv: "kv \<in> set s3" "fst kv \<notin> pending remaining dups"
          "patched config g (fst kv) (snd kv)" unfolding kept_def by blast
        from kv(1,2) mem have in1: "kv \<in> set s1" by blast
        from kv(3) obtain d where d: "details config g = Inr d" "snd kv = d\<lparr>event_id := fst kv\<rparr>"
          by (rule patched_obtain)
        show ?thesis
        proof (cases "visible flt (snd kv)")
          case True
          with in1 kv(3) show ?thesis by blast
        next
          case False
          with d(2) have nv: "\<not> visible flt d" by simp
          with day g d(1) have "guard_accepts d d" by blast
          then have "guard_accepts d (snd kv)" by (simp add: d(2))
          with in1 d(1) have two: "\<exists>d. details config g = Inr d
                      \<and> (\<exists>kv\<in>set s1. guard_accepts d (snd kv))" by blast
          have one: "\<forall>kv\<in>set s1. visible flt (snd kv) \<longrightarrow> src_id_of (snd kv) \<noteq> event_id g"
          proof (intro ballI impI notI)
            fix x assume x: "x \<in> set s1" "visible flt (snd x)" "src_id_of (snd x) = event_id g"
            from x(1) mem have x3: "x \<in> set s3" "fst x \<notin> pending remaining dups" by blast+
            from i5[OF x3(1)] x3(2) x(2) obtain h where
              h: "h \<in> set src" "patched config h (fst x) (snd x)" by blast
            from patched_src_id[OF h(2)] x(3) have "event_id h = event_id g" by simp
            from same_event_id[OF dist h(1) g this] h(2)
            have "patched config g (fst x) (snd x)" by simp
            then obtain d' where "details config g = Inr d'" "snd x = d'\<lparr>event_id := fst x\<rparr>"
              by (rule patched_obtain)
            with d(1) have "snd x = d\<lparr>event_id := fst x\<rparr>" by simp
            with x(2) have "visible flt d" by simp
            with nv show False ..
          qed
          from one two show ?thesis by blast
        qed
      next
        assume p: "passed config flt (pending remaining dups) remaining [] s3 g"
        then have one3: "\<forall>kv\<in>set s3. fst kv \<notin> pending remaining dups \<and> visible flt (snd kv)
            \<longrightarrow> src_id_of (snd kv) \<noteq> event_id g"
          unfolding passed_def by blast
        from p obtain d kv where d: "details config g = Inr d"
          and kv: "kv \<in> set s3" "guard_accepts d (snd kv)" "fst kv \<notin> pending remaining dups"
          unfolding passed_def by auto
        from kv(1,3) mem have "kv \<in> set s1" by blast
        with d kv(2) have two: "\<exists>d. details config g = Inr d
                      \<and> (\<exists>kv\<in>set s1. guard_accepts d (snd kv))" by blast
        have one: "\<forall>kv\<in>set s1. visible flt (snd kv) \<longrightarrow> src_id_of (snd kv) \<noteq> event_id g"
          using one3 mem by blast
        from one two show ?thesis by blast
      qed
    qed
    show "\<forall>kv\<in>set s1. \<forall>kv'\<in>set s1.
            visible flt (snd kv) \<and> visible flt (snd kv')
            \<and> src_id_of (snd kv) = src_id_of (snd kv') \<longrightarrow> kv = kv'"
    proof (intro ballI impI)
      fix kv kv' assume h: "kv \<in> set s1" "kv' \<in> set s1"
        "visible flt (snd kv) \<and> visible flt (snd kv')
            \<and> src_id_of (snd kv) = src_id_of (snd kv')"
      from h(1,2) mem have "kv \<in> set s3" "kv' \<in> set s3"
        "fst kv \<notin> pending remaining dups" "fst kv' \<notin> pending remaining dups" by blast+
      with i7[of kv kv'] h(3) show "kv = kv'" by blast
    qed
  qed
qed

lemma sync_event_skip:
  assumes "details config f = Inr d" and "map_of ids (event_id f) = None"
      and "has_event MemoryCalendar s d = Inr True"
  shows "sync_event MemoryCalendar config f (ids, s, tr) = Inr (ids, s, tr)"
proof -
  have c: "create_event MemoryCalendar s d = Inr d"
    by (simp add: MemoryCalendar_def memory_create_event_def)
  show ?thesis by (simp add: sync_event_def assms c)
qed

lemma sync_events_settled:
  assumes "wf_store s" and "distinct (map event_id fs)"
      and "\<forall>f\<in>set fs.
             (\<exists>kv\<in>set s. map_of ids (event_id f) = Some (fst kv)
                \<and> patched config f (fst kv) (snd kv))
             \<or> (map_of ids (event_id f) = None
                 \<and> (\<exists>d. details config f = Inr d \<and> has_event MemoryCalendar s d = Inr True))"
  shows "\<exists>ids' tr'. sync_events MemoryCalendar config fs (ids, s, tr) = Inr (ids', s, tr @ tr')
           \<and> (\<forall>c\<in>set tr'. \<exists>r\<in>snd ` set s. c = Update_event r)"
  using assms
proof (induction fs arbitrary: ids tr)
  case Nil
  then show ?case by simp
next
  case (Cons f rest)
  from Cons.prems(2) have dr: "distinct (map event_id rest)" by simp
  have differs: "event_id g \<noteq> event_id f" if "g \<in> set rest" for g
  proof -
    from Cons.prems(2) have "event_id f \<notin> event_id ` set rest" by simp
    with that show ?thesis by (rule not_in_image_neq)
  qed
  have "f \<in> set (f # rest)" by simp
  with Cons.prems(3) have
    "(\<exists>kv\<in>set s. map_of ids (event_id f) = Some (fst kv)
                \<and> patched config f (fst kv) (snd kv))
     \<or> (map_of ids (event_id f) = None
         \<and> (\<exists>d. details config f = Inr d \<and> has_event MemoryCalendar s d = Inr True))"
    by blast
  then show ?case
  proof
    assume "\<exists>kv\<in>set s. map_of ids (event_id f) = Some (fst kv)
                \<and> patched config f (fst kv) (snd kv)"
    then obtain kv where kv: "kv \<in> set s" "map_of ids (event_id f) = Some (fst kv)"
      "patched config f (fst kv) (snd kv)" by auto
    from kv(1) have kv': "(fst kv, snd kv) \<in> set s" by simp
    have step: "sync_event MemoryCalendar config f (ids, s, tr)
           = Inr (AList.delete (event_id f) ids, s, tr @ [Update_event (snd kv)])"
      by (rule sync_event_noop[OF Cons.prems(1) kv' kv(2,3)])
    have rest: "\<forall>g\<in>set rest.
        (\<exists>kv\<in>set s. map_of (AList.delete (event_id f) ids) (event_id g) = Some (fst kv)
            \<and> patched config g (fst kv) (snd kv))
        \<or> (map_of (AList.delete (event_id f) ids) (event_id g) = None
            \<and> (\<exists>d. details config g = Inr d \<and> has_event MemoryCalendar s d = Inr True))"
    proof
      fix g assume g: "g \<in> set rest"
      from differs[OF g]
      have "map_of (AList.delete (event_id f) ids) (event_id g) = map_of ids (event_id g)"
        by simp
      with Cons.prems(3) g show
        "(\<exists>kv\<in>set s. map_of (AList.delete (event_id f) ids) (event_id g) = Some (fst kv)
            \<and> patched config g (fst kv) (snd kv))
        \<or> (map_of (AList.delete (event_id f) ids) (event_id g) = None
            \<and> (\<exists>d. details config g = Inr d \<and> has_event MemoryCalendar s d = Inr True))"
        by simp
    qed
    from Cons.IH[OF Cons.prems(1) dr rest, of "tr @ [Update_event (snd kv)]"]
    obtain ids' tr' where r:
      "sync_events MemoryCalendar config rest
         (AList.delete (event_id f) ids, s, tr @ [Update_event (snd kv)])
       = Inr (ids', s, (tr @ [Update_event (snd kv)]) @ tr')"
      "\<forall>c\<in>set tr'. \<exists>r\<in>snd ` set s. c = Update_event r"
      by blast
    have "sync_events MemoryCalendar config (f # rest) (ids, s, tr)
        = Inr (ids', s, tr @ (Update_event (snd kv) # tr'))"
      using step r(1) by simp
    moreover have "\<forall>c\<in>set (Update_event (snd kv) # tr'). \<exists>r\<in>snd ` set s. c = Update_event r"
      using r(2) kv(1) by auto
    ultimately show ?thesis by blast
  next
    assume "map_of ids (event_id f) = None
         \<and> (\<exists>d. details config f = Inr d \<and> has_event MemoryCalendar s d = Inr True)"
    then obtain d where d: "map_of ids (event_id f) = None" "details config f = Inr d"
      "has_event MemoryCalendar s d = Inr True" by blast
    have step: "sync_event MemoryCalendar config f (ids, s, tr) = Inr (ids, s, tr)"
      by (rule sync_event_skip[OF d(2,1,3)])
    have rest: "\<forall>g\<in>set rest.
        (\<exists>kv\<in>set s. map_of ids (event_id g) = Some (fst kv)
            \<and> patched config g (fst kv) (snd kv))
        \<or> (map_of ids (event_id g) = None
            \<and> (\<exists>d. details config g = Inr d \<and> has_event MemoryCalendar s d = Inr True))"
      using Cons.prems(3) by simp
    from Cons.IH[OF Cons.prems(1) dr rest, of tr]
    obtain ids' tr' where r:
      "sync_events MemoryCalendar config rest (ids, s, tr) = Inr (ids', s, tr @ tr')"
      "\<forall>c\<in>set tr'. \<exists>r\<in>snd ` set s. c = Update_event r"
      by blast
    have "sync_events MemoryCalendar config (f # rest) (ids, s, tr) = Inr (ids', s, tr @ tr')"
      using step r(1) by simp
    with r(2) show ?thesis by blast
  qed
qed

lemma settled_fixpoint:
  assumes sync: "settled config flt src s"
      and flt: "sync_filter config now0 now1 = Inr flt"
      and dist: "distinct (map event_id src)"
      and kind: "\<forall>f\<in>set src. \<forall>d. details config f = Inr d \<longrightarrow> same_kind flt d"
  shows "\<exists>tr. sync_from MemoryCalendar s src config now0 now1 = Inr (s, tr)
           \<and> (\<forall>c\<in>set tr. \<exists>r\<in>snd ` set s. c = Update_event r)"
proof -
  let ?p = "EventFilter_call flt"
  let ?P = "\<lambda>kv. visible flt (snd kv)"
  let ?vs = "filter (\<lambda>x. ?p x = Inr True) (map snd s)"
  let ?ids = "map (\<lambda>r. (src_id_of r, event_id r)) ?vs"
  from sync have wf: "wf_store s"
    and nr: "\<forall>kv\<in>set s. \<exists>b. ?p (snd kv) = Inr b"
    and pat: "\<forall>kv\<in>set s. visible flt (snd kv)
            \<longrightarrow> (\<exists>f\<in>set src. patched config f (fst kv) (snd kv))"
    and all: "\<forall>f\<in>set src.
            (\<exists>kv\<in>set s. visible flt (snd kv) \<and> patched config f (fst kv) (snd kv))
            \<or> ((\<forall>kv\<in>set s. visible flt (snd kv) \<longrightarrow> src_id_of (snd kv) \<noteq> event_id f)
                \<and> (\<exists>d. details config f = Inr d
                      \<and> (\<exists>kv\<in>set s. guard_accepts d (snd kv))))"
    and inj: "\<forall>kv\<in>set s. \<forall>kv'\<in>set s.
            visible flt (snd kv) \<and> visible flt (snd kv')
            \<and> src_id_of (snd kv) = src_id_of (snd kv') \<longrightarrow> kv = kv'"
    unfolding settled_def by - ((elim conjE, assumption)+)
  from flt obtain a b where bounds: "filter_start flt = Some a" "filter_end flt = Some b"
    by (rule sync_filter_bounds)
  have vs: "?vs = map snd (filter ?P s)"
    by (simp add: filter_map comp_def visible_def)
  have "distinct s" using wf by (simp add: wf_store_def distinct_map)
  then have "distinct (filter ?P s)" by simp
  moreover have "inj_on (src_id_of \<circ> snd) (set (filter ?P s))"
    using inj by (intro inj_onI) auto
  ultimately have "distinct (map (src_id_of \<circ> snd) (filter ?P s))"
    by (simp add: distinct_map)
  then have dvs: "distinct (map src_id_of ?vs)" by (simp add: vs)
  have ev: "events MemoryCalendar s (Some flt) = filter_iter ?p (map snd s)"
    by (simp add: MemoryCalendar_def memory_events_def)
  have ix: "index_existing (events MemoryCalendar s (Some flt)) [] [] = Inr (?ids, [])"
    unfolding ev using index_existing_filter_iter[of "map snd s" ?p "[]" "[]"] nr dvs by simp
  have keys: "map fst ?ids = map src_id_of ?vs" by (simp add: comp_def)
  have look: "\<forall>f\<in>set src.
             (\<exists>kv\<in>set s. map_of ?ids (event_id f) = Some (fst kv)
                \<and> patched config f (fst kv) (snd kv))
             \<or> (map_of ?ids (event_id f) = None
                 \<and> (\<exists>d. details config f = Inr d \<and> has_event MemoryCalendar s d = Inr True))"
  proof
    fix f assume f: "f \<in> set src"
    from all f have
      "(\<exists>kv\<in>set s. visible flt (snd kv) \<and> patched config f (fst kv) (snd kv))
       \<or> ((\<forall>kv\<in>set s. visible flt (snd kv) \<longrightarrow> src_id_of (snd kv) \<noteq> event_id f)
           \<and> (\<exists>d. details config f = Inr d \<and> (\<exists>kv\<in>set s. guard_accepts d (snd kv))))"
      by blast
    then show "(\<exists>kv\<in>set s. map_of ?ids (event_id f) = Some (fst kv)
                \<and> patched config f (fst kv) (snd kv))
             \<or> (map_of ?ids (event_id f) = None
                 \<and> (\<exists>d. details config f = Inr d \<and> has_event MemoryCalendar s d = Inr True))"
    proof
      assume "\<exists>kv\<in>set s. visible flt (snd kv) \<and> patched config f (fst kv) (snd kv)"
      then obtain kv where kv: "kv \<in> set s" "visible flt (snd kv)"
        "patched config f (fst kv) (snd kv)" by blast
      from kv(1,2) have "snd kv \<in> set ?vs" by (simp add: visible_def)
      then have "(src_id_of (snd kv), event_id (snd kv)) \<in> set ?ids" by force
      moreover have "src_id_of (snd kv) = event_id f" using kv(3) by (rule patched_src_id)
      moreover have "event_id (snd kv) = fst kv" using wf kv(1) by (simp add: wf_store_def)
      ultimately have "(event_id f, fst kv) \<in> set ?ids" by simp
      moreover have "distinct (map fst ?ids)" unfolding keys by (rule dvs)
      ultimately have "map_of ?ids (event_id f) = Some (fst kv)" by (rule map_of_is_SomeI[rotated])
      with kv show ?thesis by blast
    next
      assume "(\<forall>kv\<in>set s. visible flt (snd kv) \<longrightarrow> src_id_of (snd kv) \<noteq> event_id f)
           \<and> (\<exists>d. details config f = Inr d \<and> (\<exists>kv\<in>set s. guard_accepts d (snd kv)))"
      then obtain d kv where none: "\<forall>kv\<in>set s. visible flt (snd kv)
            \<longrightarrow> src_id_of (snd kv) \<noteq> event_id f"
        and d: "details config f = Inr d" and kv: "kv \<in> set s" "guard_accepts d (snd kv)"
        by blast
      have "event_id f \<notin> set (map src_id_of ?vs)"
      proof
        assume "event_id f \<in> set (map src_id_of ?vs)"
        then have "event_id f \<in> src_id_of ` set ?vs" by (simp only: set_map)
        then obtain r where r: "event_id f = src_id_of r" "r \<in> set ?vs" by (rule imageE)
        from r(2) obtain x where "x \<in> set s" "snd x = r" "visible flt r"
          by (auto simp: visible_def)
        with none r(1) show False by force
      qed
      then have "event_id f \<notin> fst ` set ?ids" using keys by (metis set_map)
      then have m: "map_of ?ids (event_id f) = None" by (simp add: map_of_eq_None_iff)
      from kind f d have k: "same_kind flt d" by blast
      have "\<forall>kv\<in>set s. \<exists>c. EventFilter_call (day_filter d) (snd kv) = Inr c"
      proof
        fix x assume "x \<in> set s"
        with nr obtain c where "?p (snd x) = Inr c" by blast
        from day_filter_evaluable[OF k bounds this]
        show "\<exists>c. EventFilter_call (day_filter d) (snd x) = Inr c" .
      qed
      from memory_has_event_found[OF this kv] have "has_event MemoryCalendar s d = Inr True" .
      with m d show ?thesis by blast
    qed
  qed
  from sync_events_settled[OF wf dist look, of "[]"] obtain ids' tr where
    loop: "sync_events MemoryCalendar config src (?ids, s, []) = Inr (ids', s, tr)"
    and tr: "\<forall>c\<in>set tr. \<exists>r\<in>snd ` set s. c = Update_event r"
    by auto
  have "set ids' = {}"
  proof (rule ccontr)
    assume "set ids' \<noteq> {}"
    then obtain k i where ki: "(k, i) \<in> set ids'" by (cases ids') auto
    with sync_events_index[OF loop, of k i] have in_ids: "(k, i) \<in> set ?ids"
      and notsrc: "k \<notin> event_id ` set src" by simp_all
    from in_ids obtain r where r: "r \<in> set ?vs" "k = src_id_of r" by auto
    from r(1) obtain kv where kv: "kv \<in> set s" "snd kv = r" "visible flt r"
      by (auto simp: visible_def)
    with pat obtain f where f: "f \<in> set src" "patched config f (fst kv) (snd kv)" by blast
    from patched_src_id[OF f(2)] kv(2) r(2) have "k = event_id f" by simp
    with f(1) notsrc show False by blast
  qed
  then have empty: "ids' = []" by simp
  have "sync_from MemoryCalendar s src config now0 now1 = Inr (s, tr)"
    by (simp add: sync_from_def flt ix loop empty)
  with tr show ?thesis by blast
qed

lemma same_moment_refl: "same_moment a a"
  by (cases "tzinfo a") (simp_all add: same_moment_def)

lemma guard_accepts_own_day:
  assumes "aware (event_end d) = aware (start d)"
  shows "guard_accepts d d \<longleftrightarrow>
           not_later ((start d)\<lparr>hour := 0, minute := 0, second := 0, microsecond := 0\<rparr>)
             (start d)
           \<and> not_later (event_end d)
             ((start d)\<lparr>hour := 23, minute := 59, second := 0, microsecond := 0\<rparr>)"
proof -
  have tz: "(tzinfo (start d) = None) = (tzinfo (start d) = None)"
    "(tzinfo (event_end d) = None) = (tzinfo (start d) = None)"
    using assms by (simp_all add: aware_eq)
  have m: "matches d d" by (simp add: matches_def dt_eq_same_moment same_moment_refl)
  have lo: "dt_le (day_start (start d)) (start d)
      = Inr (not_later ((start d)\<lparr>hour := 0, minute := 0, second := 0, microsecond := 0\<rparr>)
               (start d))"
    by (simp add: day_start_update dt_le_not_later)
  have hi: "dt_le (event_end d) (day_end (start d))
      = Inr (not_later (event_end d)
               ((start d)\<lparr>hour := 23, minute := 59, second := 0, microsecond := 0\<rparr>))"
    using tz(2) by (simp add: day_end_update dt_le_not_later)
  show ?thesis
    using day_filter_call(2)[OF tz] lo hi m by (simp add: guard_accepts_def)
qed

lemma split_three:
  "[a, b, c] = pre @ f # post \<longleftrightarrow>
     (pre = [] \<and> f = a \<and> post = [b, c]) \<or> (pre = [a] \<and> f = b \<and> post = [c])
     \<or> (pre = [a, b] \<and> f = c \<and> post = [])"
  by (auto simp: Cons_eq_append_conv)

text \<open>
  C1 as stated fails, in five ways; each pair of runs uses the same source, config and
  clock, the second run starting from the store that the first one left.
  \<^enum> The guard accepts a record that the same run deletes: the store holds an orphan
    equal to the new source event on title, start and end; the first run skips the
    insertion and deletes the orphan, the second run performs an \<open>add_event\<close>.
  \<^enum> The guard accepts a record that the same run changes: the record kept for \<open>r1\<close>
    has the title and times of \<open>standup\<close>; the first run skips \<open>standup\<close> and then
    updates the record to \<open>review\<close>, the second run adds \<open>standup\<close>.
  \<^enum> A source event outside the sync window that ends after 23:59:00 of its start
    date is seen neither by the first loop nor by the guard: every run adds it again.
  \<^enum> Two source events share an identifier: the first run adds both, the second run
    deletes one of the two records as a duplicate.
  \<^enum> The source event is naive and the sync window aware: the first run adds it to
    the empty store, the second run raises \<open>TypeError\<close> in the first loop.
\<close>

theorem second_run_changes_destination:
  "sync_from MemoryCalendar store_with_matching_orphan [standup] work_config new_year new_year
     = Inr ([], [Delete_event (Some ''d1'')])
   \<and> sync_from MemoryCalendar [] [standup] work_config new_year new_year
       = Inr ([(Some ''n'', synced ''n'' ''abc'' standup)], [Add_event standup_patch])
   \<and> sync_from MemoryCalendar store_with_stale_record [standup, review] work_config
         new_year new_year
       = Inr (store_with_review, [Update_event (synced ''d1'' ''r1'' review)])
   \<and> sync_from MemoryCalendar store_with_review [standup, review] work_config
         new_year new_year
       = Inr ([(Some ''d1'', synced ''d1'' ''r1'' review),
               (Some ''nnn'', synced ''nnn'' ''abc'' standup)],
              [Add_event standup_patch, Update_event (synced ''d1'' ''r1'' review)])
   \<and> sync_from MemoryCalendar [] [overnight] work_config new_year new_year
       = Inr ([(Some ''n'', synced ''n'' ''o1'' overnight)],
              [Add_event (synced ''n'' ''o1'' overnight\<lparr>event_id := None\<rparr>)])
   \<and> sync_from MemoryCalendar [(Some ''n'', synced ''n'' ''o1'' overnight)] [overnight]
         work_config new_year new_year
       = Inr ([(Some ''n'', synced ''n'' ''o1'' overnight),
               (Some ''nn'', synced ''nn'' ''o1'' overnight)],
              [Add_event (synced ''n'' ''o1'' overnight\<lparr>event_id := None\<rparr>)])
   \<and> sync_from MemoryCalendar [] [standup, standup\<lparr>title := ''Retro''\<rparr>] work_config
         new_year new_year
       = Inr ([(Some ''n'', synced ''n'' ''abc'' standup),
               (Some ''nn'', synced ''nn'' ''abc'' (standup\<lparr>title := ''Retro''\<rparr>))],
              [Add_event standup_patch, Add_event (standup_patch\<lparr>title := ''Retro''\<rparr>)])
   \<and> sync_from MemoryCalendar
         [(Some ''n'', synced ''n'' ''abc'' standup),
          (Some ''nn'', synced ''nn'' ''abc'' (standup\<lparr>title := ''Retro''\<rparr>))]
         [standup, standup\<lparr>title := ''Retro''\<rparr>] work_config new_year new_year
       = Inr ([(Some ''n'', synced ''n'' ''abc'' standup)],
              [Update_event (synced ''n'' ''abc'' standup), Delete_event (Some ''nn'')])
   \<and> sync_from MemoryCalendar [] [naive_standup] work_config new_year new_year
       = Inr ([(Some ''n'', synced ''n'' ''abc'' naive_standup)],
              [Add_event (synced ''n'' ''abc'' naive_standup\<lparr>event_id := None\<rparr>)])
   \<and> sync_from MemoryCalendar [(Some ''n'', synced ''n'' ''abc'' naive_standup)]
         [naive_standup] work_config new_year new_year
       = Inl (TypeError, [(Some ''n'', synced ''n'' ''abc'' naive_standup)], [])"
  by code_simp

text \<open>
  C1, amended (idempotence of reconciliation): take a well-formed in-memory
  destination, a source with pairwise distinct identifiers, and a first run that
  returns. Suppose that
  \<^item> the start and end of every patched source event and the bounds of the sync window
    are all aware or all naive;
  \<^item> every patched source event lies in the sync window or is accepted by the guard
    when searched for itself (by \<open>guard_accepts_own_day\<close>: it starts at or after 00:00:00
    and ends at or before 23:59:00 of its start date);
  \<^item> whenever \<open>has_event\<close> returns \<open>True\<close> for a source event whose identifier is not in
    the index, the guard accepts for it a record that the run leaves as it is (its
    identifier is neither a value of the index nor a recorded duplicate), or it accepts
    the patch of a later source event whose identifier is in the index, the record
    that the run is about to write.

  Then a second run with the same source, config and clock readings returns and
  leaves the destination exactly as the first run left it, and every call it issues is
  an \<open>update_event\<close> with a record that the destination already holds: no \<open>add_event\<close>,
  no \<open>delete_event\<close>, and updates that change nothing.
\<close>

theorem sync_from_idempotent:
  assumes run: "sync_from MemoryCalendar s0 src config now0 now1 = Inr (s1, tr1)"
      and flt: "sync_filter config now0 now1 = Inr flt"
      and ix: "index_existing (events MemoryCalendar s0 (Some flt)) [] [] = Inr (ids0, dups)"
      and wf: "wf_store s0"
      and dist: "distinct (map event_id src)"
      and kind: "\<forall>f\<in>set src. \<forall>d. details config f = Inr d \<longrightarrow> same_kind flt d"
      and day: "\<forall>f\<in>set src. \<forall>d. details config f = Inr d
                  \<longrightarrow> visible flt d \<or> guard_accepts d d"
      and guard: "\<forall>pre f post ids s tr d.
             src = pre @ f # post
             \<and> sync_events MemoryCalendar config pre (ids0, s0, []) = Inr (ids, s, tr)
             \<and> map_of ids (event_id f) = None \<and> details config f = Inr d
             \<and> has_event MemoryCalendar s d = Inr True
             \<longrightarrow> (\<exists>kv\<in>set s. fst kv \<notin> pending ids dups \<and> guard_accepts d (snd kv))
                 \<or> (\<exists>g\<in>set post. \<exists>dg. map_of ids (event_id g) \<noteq> None
                       \<and> details config g = Inr dg \<and> guard_accepts d dg)"
  shows "\<exists>tr2. sync_from MemoryCalendar s1 src config now0 now1 = Inr (s1, tr2)
           \<and> (\<forall>c\<in>set tr2. \<exists>r\<in>snd ` set s1. c = Update_event r)"
proof -
  have "settled config flt src s1"
    by (rule first_run_settled[OF run flt ix wf dist kind day guard])
  then show ?thesis using flt dist kind by (rule settled_fixpoint)
qed

theorem sync_from_idempotent_witness:
  "sync_from MemoryCalendar store_with_copy_and_review [standup, review, kickoff] work_config
       new_year new_year
     = Inr (store_after_first_run,
            [Update_event (synced ''d1'' ''r1'' review),
             Add_event (synced ''nnn'' ''y1'' kickoff\<lparr>event_id := None\<rparr>)])
   \<and> sync_from MemoryCalendar store_after_first_run [standup, review, kickoff] work_config
         new_year new_year
       = Inr (store_after_first_run, [Update_event (synced ''d1'' ''r1'' review)])
   \<and> (\<exists>tr2. sync_from MemoryCalendar store_after_first_run [standup, review, kickoff]
                work_config new_year new_year
              = Inr (store_after_first_run, tr2)
            \<and> (\<forall>c\<in>set tr2. \<exists>r\<in>snd ` set store_after_first_run. c = Update_event r))"
proof -
  let ?src = "[standup, review, kickoff]"
  let ?ids0 = "[(Some ''r1'', Some ''d1'')]"
  let ?s0 = store_with_copy_and_review
  have run: "sync_from MemoryCalendar ?s0 ?src work_config new_year new_year
     = Inr (store_after_first_run,
            [Update_event (synced ''d1'' ''r1'' review),
             Add_event (synced ''nnn'' ''y1'' kickoff\<lparr>event_id := None\<rparr>)])"
    by code_simp
  have again: "sync_from MemoryCalendar store_after_first_run ?src work_config
         new_year new_year
       = Inr (store_after_first_run, [Update_event (synced ''d1'' ''r1'' review)])"
    by code_simp
  have flt: "sync_filter work_config new_year new_year = Inr work_filter"
    by code_simp
  have ix: "index_existing (events MemoryCalendar ?s0 (Some work_filter)) [] []
       = Inr (?ids0, [])"
    by code_simp
  have wf: "wf_store ?s0"
    by (simp add: wf_store_def store_with_copy_and_review_def synced_def)
  have dist: "distinct (map event_id ?src)"
    by (simp add: review_def standup_def kickoff_def)
  have d1: "details work_config standup = Inr standup_patch"
    by code_simp
  have d2: "details work_config review = Inr (synced ''d1'' ''r1'' review\<lparr>event_id := None\<rparr>)"
    by code_simp
  have d3: "details work_config kickoff = Inr (synced ''nnn'' ''y1'' kickoff\<lparr>event_id := None\<rparr>)"
    by code_simp
  have k: "same_kind work_filter standup_patch"
    "same_kind work_filter (synced ''d1'' ''r1'' review\<lparr>event_id := None\<rparr>)"
    "same_kind work_filter (synced ''nnn'' ''y1'' kickoff\<lparr>event_id := None\<rparr>)"
    by (simp_all add: same_kind_def aware_def work_filter_def standup_patch_def standup_def
        synced_def review_def kickoff_def utc_def)
  have kind: "\<forall>f\<in>set ?src. \<forall>d. details work_config f = Inr d \<longrightarrow> same_kind work_filter d"
    using d1 d2 d3 k by simp
  have v: "visible work_filter standup_patch"
    "visible work_filter (synced ''d1'' ''r1'' review\<lparr>event_id := None\<rparr>)"
    "\<not> visible work_filter (synced ''nnn'' ''y1'' kickoff\<lparr>event_id := None\<rparr>)"
    "guard_accepts (synced ''nnn'' ''y1'' kickoff\<lparr>event_id := None\<rparr>)
       (synced ''nnn'' ''y1'' kickoff\<lparr>event_id := None\<rparr>)"
    by code_simp+
  have day: "\<forall>f\<in>set ?src. \<forall>d. details work_config f = Inr d
      \<longrightarrow> visible work_filter d \<or> guard_accepts d d"
    using d1 d2 d3 v by simp
  have p1: "sync_events MemoryCalendar work_config [standup] (?ids0, ?s0, [])
      = Inr (?ids0, ?s0, [])"
    by code_simp
  have p2: "sync_events MemoryCalendar work_config [standup, review] (?ids0, ?s0, [])
      = Inr ([], ?s0, [Update_event (synced ''d1'' ''r1'' review)])"
    by code_simp
  have copy: "guard_accepts standup_patch (standup\<lparr>event_id := Some ''d0''\<rparr>)"
    by code_simp
  have absent: "has_event MemoryCalendar ?s0 (synced ''nnn'' ''y1'' kickoff\<lparr>event_id := None\<rparr>)
      = Inr False"
    by code_simp
  have guard: "\<forall>pre f post ids s tr d.
             ?src = pre @ f # post
             \<and> sync_events MemoryCalendar work_config pre (?ids0, ?s0, []) = Inr (ids, s, tr)
             \<and> map_of ids (event_id f) = None \<and> details work_config f = Inr d
             \<and> has_event MemoryCalendar s d = Inr True
             \<longrightarrow> (\<exists>kv\<in>set s. fst kv \<notin> pending ids [] \<and> guard_accepts d (snd kv))
                 \<or> (\<exists>g\<in>set post. \<exists>dg. map_of ids (event_id g) \<noteq> None
                       \<and> details work_config g = Inr dg \<and> guard_accepts d dg)"
  proof (intro allI impI)
    fix pre f post ids s tr d
    assume h: "?src = pre @ f # post
             \<and> sync_events MemoryCalendar work_config pre (?ids0, ?s0, []) = Inr (ids, s, tr)
             \<and> map_of ids (event_id f) = None \<and> details work_config f = Inr d
             \<and> has_event MemoryCalendar s d = Inr True"
    from h have "(pre = [] \<and> f = standup \<and> post = [review, kickoff])
        \<or> (pre = [standup] \<and> f = review \<and> post = [kickoff])
        \<or> (pre = [standup, review] \<and> f = kickoff \<and> post = [])"
      by (simp add: split_three)
    then consider (a) "pre = []" "f = standup" | (b) "pre = [standup]" "f = review"
      | (c) "pre = [standup, review]" "f = kickoff" by blast
    then have "\<exists>kv\<in>set s. fst kv \<notin> pending ids [] \<and> guard_accepts d (snd kv)"
    proof cases
      case a
      with h have *: "ids = ?ids0" "s = ?s0" "d = standup_patch" using d1 by simp_all
      have "(Some ''d0'', standup\<lparr>event_id := Some ''d0''\<rparr>) \<in> set ?s0"
        by (simp add: store_with_copy_and_review_def)
      moreover have "Some ''d0'' \<notin> pending ?ids0 []" by (simp add: pending_def)
      ultimately show ?thesis unfolding * using copy
        by (intro bexI[of _ "(Some ''d0'', standup\<lparr>event_id := Some ''d0''\<rparr>)"]) simp_all
    next
      case b
      with h p1 have "ids = ?ids0" by simp
      with h b have False by (simp add: review_def)
      then show ?thesis ..
    next
      case c
      with h p2 have "s = ?s0" by simp
      moreover from h c d3 have "d = synced ''nnn'' ''y1'' kickoff\<lparr>event_id := None\<rparr>" by simp
      ultimately have False using h absent by simp
      then show ?thesis ..
    qed
    then show "(\<exists>kv\<in>set s. fst kv \<notin> pending ids [] \<and> guard_accepts d (snd kv))
                 \<or> (\<exists>g\<in>set post. \<exists>dg. map_of ids (event_id g) \<noteq> None
                       \<and> details work_config g = Inr dg \<and> guard_accepts d dg)" ..
  qed
  note idem = sync_from_idempotent[OF run flt ix wf dist kind day guard]
  show ?thesis using run again idem by blast
qed

end
